theory Spec2Isabelle
  imports Complex_Main "HOL-Library.Word"
begin

section \<open>Data model of \<open>QMCSamplingContext\<close>\<close>

text \<open>
  The class \<open>foundation::QMCSamplingContext<RNG>\<close> of
  \<open>foundation/math/sampling/qmcsamplingcontext.h\<close>.

  \<^item> \<open>size_t\<close> is a 64-bit word; \<open>+\<close> and \<open>*\<close> wrap around as in C++.
  \<^item> A value of type \<open>double\<close> is the real number it denotes. The arithmetic of the
    class, the addition and the subtraction of \<open>rotate\<close>, rounds its exact result with
    \<open>double_round\<close>, a parameter of the model: \<open>round_binary64\<close> below is the rounding
    of IEEE binary64, the identity is exact arithmetic.
  \<^item> A failed \<open>assert\<close> is the error \<open>AssertionFailed\<close>; the exception thrown by the
    closed-interval family is \<open>ExceptionNotImplemented\<close>.
  \<^item> The member \<open>RNG& m_rng\<close> is a reference: the context stores the address of a
    generator, and the generators themselves live in a store \<open>addr \<Rightarrow> 'r\<close>.
\<close>

type_synonym size_t = "64 word"
type_synonym addr = nat

datatype error = AssertionFailed | ExceptionNotImplemented

text \<open>\<open>typedef Vector<double, 4> VectorType\<close>: exactly four components.\<close>

datatype vector4 = Vector4 real real real real

text \<open>\<open>VectorType::Dimension\<close>.\<close>

definition VectorType_Dimension :: size_t where
  "VectorType_Dimension = 4"

text \<open>Subscript read \<open>v[i]\<close> and subscript write \<open>v[i] = x\<close>; \<open>None\<close> outside the
  four components. The header \<open>vector.h\<close> is not part of the sources at hand; a
  subscript outside the vector counts as a failed assertion wherever a member function
  uses one.\<close>

fun vget :: "vector4 \<Rightarrow> size_t \<Rightarrow> real option" where
  "vget (Vector4 a b c d) i =
     (if i = 0 then Some a else if i = 1 then Some b
      else if i = 2 then Some c else if i = 3 then Some d else None)"

fun vset :: "vector4 \<Rightarrow> size_t \<Rightarrow> real \<Rightarrow> vector4 option" where
  "vset (Vector4 a b c d) i x =
     (if i = 0 then Some (Vector4 x b c d) else if i = 1 then Some (Vector4 a x c d)
      else if i = 2 then Some (Vector4 a b x d) else if i = 3 then Some (Vector4 a b c x)
      else None)"

text \<open>\<open>Vector<double, 4>(0.0)\<close>: every component set to the given value.\<close>

definition vfill :: "real \<Rightarrow> vector4" where
  "vfill x = Vector4 x x x x"

text \<open>The data members of the class.\<close>

record ctx =
  m_rng :: addr
  m_base_dimension :: size_t
  m_base_instance :: size_t
  m_dimension :: size_t
  m_sample_count :: size_t
  m_instance :: size_t
  m_offset :: vector4

text \<open>
  The headers \<open>qmc.h\<close>, \<open>permutation.h\<close>, \<open>primes.h\<close> and \<open>rng.h\<close> are not part of
  the sources at hand. Their constants, tables and functions are parameters of the
  model, collected in one record; \<open>'r\<close> is the state of a random number generator and
  \<open>rand_double2\<close> returns the number drawn together with the generator's new state.
  The last field is the rounding of the arithmetic of \<open>double\<close>.
\<close>

record 'r tables =
  FaurePermutationTableSize :: size_t
  PrimeTableSize :: size_t
  PrecomputedHaltonSequenceSize :: size_t
  PrecomputedHaltonSequence :: "size_t \<Rightarrow> real"
  FaurePermutations :: "size_t \<Rightarrow> nat list"
  fast_permuted_radical_inverse :: "size_t \<Rightarrow> nat list \<Rightarrow> size_t \<Rightarrow> real"
  radical_inverse_base2 :: "size_t \<Rightarrow> real"
  fast_radical_inverse :: "size_t \<Rightarrow> size_t \<Rightarrow> real"
  rand_double2 :: "'r \<Rightarrow> real \<times> 'r"
  double_round :: "real \<Rightarrow> real"

section \<open>The arithmetic of binary64\<close>

text \<open>
  A finite number of IEEE binary64 is an integer multiple of a power of two, with a
  significand of 53 bits and a least exponent of -1074. An operation returns its exact
  result rounded to the nearest such number, to the one with the even significand when
  two are equally near. Results of the class stay below 2; overflow is not modelled.
\<close>

definition round_half_even :: "real \<Rightarrow> int" where
  "round_half_even y =
     (let f = \<lfloor>y\<rfloor> in
      if y - of_int f < 1 / 2 then f
      else if 1 / 2 < y - of_int f then f + 1
      else if even f then f else f + 1)"

text \<open>The exponent of the unit in the last place of the numbers as large as \<open>x\<close>.\<close>

definition binary64_exponent :: "real \<Rightarrow> int" where
  "binary64_exponent x = max (\<lfloor>log 2 \<bar>x\<bar>\<rfloor> - 52) (- 1074)"

definition round_binary64 :: "real \<Rightarrow> real" where
  "round_binary64 x =
     (if x = 0 then 0
      else of_int (round_half_even (x / 2 powi binary64_exponent x)) * 2 powi binary64_exponent x)"

text \<open>The numbers of binary64 are the ones that rounding leaves as they are.\<close>

definition is_binary64 :: "real \<Rightarrow> bool" where
  "is_binary64 x \<longleftrightarrow> round_binary64 x = x"

section \<open>Construction\<close>

text \<open>\<open>explicit QMCSamplingContext(RNG& rng)\<close>: the context of dimension 0.\<close>

definition QMCSamplingContext0 :: "addr \<Rightarrow> ctx" where
  "QMCSamplingContext0 rng =
     \<lparr>m_rng = rng, m_base_dimension = 0, m_base_instance = 0, m_dimension = 0,
      m_sample_count = 0, m_instance = 0, m_offset = vfill 0\<rparr>"


section \<open>Offset computation\<close>

text \<open>
  The loop of \<open>compute_offset\<close>, with its two counters \<open>i\<close> and \<open>d\<close>. The generator
  that \<open>m_rng\<close> refers to is read from and written back to the store \<open>rs\<close>.
\<close>

function compute_offset_loop ::
  "'r tables \<Rightarrow> size_t \<Rightarrow> size_t \<Rightarrow> ctx \<Rightarrow> (addr \<Rightarrow> 'r) \<Rightarrow> error + (ctx \<times> (addr \<Rightarrow> 'r))" where
  "compute_offset_loop T i d c rs =
     (if i < m_dimension c then
        (if d < FaurePermutationTableSize T then
           (if \<not> d < PrimeTableSize T then Inl AssertionFailed
            else
              (case vset (m_offset c) i
                      (fast_permuted_radical_inverse T d (FaurePermutations T d) (m_base_instance c)) of
                 None \<Rightarrow> Inl AssertionFailed
               | Some off \<Rightarrow> compute_offset_loop T (i + 1) (d + 1) (c\<lparr>m_offset := off\<rparr>) rs))
         else
           (case rand_double2 T (rs (m_rng c)) of
              (x, r') \<Rightarrow>
                (case vset (m_offset c) i x of
                   None \<Rightarrow> Inl AssertionFailed
                 | Some off \<Rightarrow>
                     compute_offset_loop T (i + 1) (d + 1) (c\<lparr>m_offset := off\<rparr>)
                       (rs(m_rng c := r')))))
      else Inr (c, rs))"
  by pat_completeness auto
termination
proof (relation "measure (\<lambda>(T, i, d, c, rs). unat (m_dimension c) - unat i)")
  show "wf (measure (\<lambda>(T, i, d, c, rs). unat (m_dimension c) - unat i))" by simp
next
  fix T :: "'r tables" and i d :: size_t and c :: ctx and rs :: "addr \<Rightarrow> 'r" and off
  assume "i < m_dimension c"
  then have "unat i < unat (m_dimension c)" and "unat (i + 1) = Suc (unat i)"
    by unat_arith+
  then show "((T, i + 1, d + 1, c\<lparr>m_offset := off\<rparr>, rs), (T, i, d, c, rs))
               \<in> measure (\<lambda>(T, i, d, c, rs). unat (m_dimension c) - unat i)"
    by simp
next
  fix T :: "'r tables" and i d :: size_t and c :: ctx and rs :: "addr \<Rightarrow> 'r" and off
    and r' :: 'r
  assume "i < m_dimension c"
  then have "unat i < unat (m_dimension c)" and "unat (i + 1) = Suc (unat i)"
    by unat_arith+
  then show "((T, i + 1, d + 1, c\<lparr>m_offset := off\<rparr>, rs(m_rng c := r')), (T, i, d, c, rs))
               \<in> measure (\<lambda>(T, i, d, c, rs). unat (m_dimension c) - unat i)"
    by simp
qed

declare compute_offset_loop.simps [simp del]

definition compute_offset :: "'r tables \<Rightarrow> ctx \<Rightarrow> (addr \<Rightarrow> 'r) \<Rightarrow> error + (ctx \<times> (addr \<Rightarrow> 'r))" where
  "compute_offset T c rs = compute_offset_loop T 0 (m_base_dimension c) c rs"

text \<open>
  The private constructor \<open>QMCSamplingContext(rng, base_dimension, base_instance,
  dimension, sample_count)\<close>. It has no initialiser for \<open>m_offset\<close>: the components
  that \<open>compute_offset\<close> does not write keep whatever the fresh object held, which is
  the argument \<open>uninit\<close> of the model.
\<close>

definition QMCSamplingContext_child ::
  "'r tables \<Rightarrow> addr \<Rightarrow> size_t \<Rightarrow> size_t \<Rightarrow> size_t \<Rightarrow> size_t \<Rightarrow> vector4 \<Rightarrow> (addr \<Rightarrow> 'r)
     \<Rightarrow> error + (ctx \<times> (addr \<Rightarrow> 'r))" where
  "QMCSamplingContext_child T rng base_dimension base_instance dimension sample_count uninit rs =
     (if \<not> dimension \<le> VectorType_Dimension then Inl AssertionFailed
      else compute_offset T
             \<lparr>m_rng = rng, m_base_dimension = base_dimension, m_base_instance = base_instance,
              m_dimension = dimension, m_sample_count = sample_count, m_instance = 0,
              m_offset = uninit\<rparr> rs)"

section \<open>Assignment, splitting, seeking\<close>

text \<open>\<open>operator=\<close>: every member but the reference \<open>m_rng\<close> is copied from \<open>rhs\<close>.\<close>

definition assign :: "ctx \<Rightarrow> ctx \<Rightarrow> ctx" where
  "assign this rhs =
     this\<lparr>m_base_dimension := m_base_dimension rhs,
          m_base_instance := m_base_instance rhs,
          m_dimension := m_dimension rhs,
          m_sample_count := m_sample_count rhs,
          m_instance := m_instance rhs,
          m_offset := m_offset rhs\<rparr>"

text \<open>\<open>split(dimension, sample_count) const\<close>: the child is returned by value.\<close>

definition split ::
  "'r tables \<Rightarrow> ctx \<Rightarrow> size_t \<Rightarrow> size_t \<Rightarrow> vector4 \<Rightarrow> (addr \<Rightarrow> 'r)
     \<Rightarrow> error + (ctx \<times> (addr \<Rightarrow> 'r))" where
  "split T this dimension sample_count uninit rs =
     QMCSamplingContext_child T (m_rng this)
       (m_base_dimension this + m_dimension this)
       (m_base_instance this + m_instance this)
       dimension sample_count uninit rs"

text \<open>\<open>split_in_place(dimension, sample_count)\<close>.\<close>

definition split_in_place ::
  "'r tables \<Rightarrow> ctx \<Rightarrow> size_t \<Rightarrow> size_t \<Rightarrow> (addr \<Rightarrow> 'r) \<Rightarrow> error + (ctx \<times> (addr \<Rightarrow> 'r))" where
  "split_in_place T this dimension sample_count rs =
     (if \<not> (m_sample_count this = 0 \<or> m_instance this = m_sample_count this)
      then Inl AssertionFailed
      else if \<not> dimension \<le> VectorType_Dimension then Inl AssertionFailed
      else compute_offset T
             (this\<lparr>m_base_dimension := m_base_dimension this + m_dimension this,
                   m_base_instance := m_base_instance this + m_instance this,
                   m_dimension := dimension,
                   m_sample_count := sample_count,
                   m_instance := 0\<rparr>) rs)"

text \<open>\<open>set_instance(instance)\<close>.\<close>

definition set_instance :: "ctx \<Rightarrow> size_t \<Rightarrow> ctx" where
  "set_instance this instance = this\<lparr>m_instance := instance\<rparr>"

text \<open>\<open>get_total_dimension()\<close> and \<open>get_total_instance()\<close>.\<close>

definition get_total_dimension :: "ctx \<Rightarrow> size_t" where
  "get_total_dimension this = m_base_dimension this + m_dimension this"

definition get_total_instance :: "ctx \<Rightarrow> size_t" where
  "get_total_instance this = m_base_instance this + m_instance this"

section \<open>Sample generation\<close>

text \<open>\<open>rotate(x, offset)\<close>: the Cranley-Patterson rotation. Both \<open>x += offset\<close> and
  \<open>x -= 1.0\<close> are operations of \<open>double\<close>.\<close>

definition rotate :: "'r tables \<Rightarrow> real \<Rightarrow> real \<Rightarrow> error + real" where
  "rotate T x offset =
     (if \<not> offset \<ge> 0 then Inl AssertionFailed
      else let x = double_round T (x + offset)
           in Inr (if x \<ge> 1 then double_round T (x - 1) else x))"

text \<open>
  The closed-interval family: \<open>next_vector1(n, v)\<close> throws, the fixed-width form
  \<open>next_vector1<N>()\<close> calls it, and \<open>next_double1()\<close> calls the fixed-width form with
  \<open>N = 1\<close>. A result would be the values written together with the context.
\<close>

definition next_vector1 :: "ctx \<Rightarrow> size_t \<Rightarrow> error + (real list \<times> ctx)" where
  "next_vector1 this n = Inl ExceptionNotImplemented"

definition next_vector1_N :: "size_t \<Rightarrow> ctx \<Rightarrow> error + (real list \<times> ctx)" where
  "next_vector1_N N this = next_vector1 this N"

definition next_double1 :: "ctx \<Rightarrow> error + (real \<times> ctx)" where
  "next_double1 this =
     (case next_vector1_N 1 this of
        Inl e \<Rightarrow> Inl e
      | Inr (v, this') \<Rightarrow> (case v of [] \<Rightarrow> Inl AssertionFailed | x # _ \<Rightarrow> Inr (x, this')))"

text \<open>
  The two loops of \<open>next_vector2(n, v)\<close>. The model's \<open>v\<close> is the list of the values
  written to \<open>v[0]\<close>, \<open>v[1]\<close>, ... so far. The first loop reads the precomputed
  points, the second one computes the radical inverses of the dimensions from 1 on.
\<close>

function next_vector2_precomputed ::
  "'r tables \<Rightarrow> ctx \<Rightarrow> size_t \<Rightarrow> size_t \<Rightarrow> real list \<Rightarrow> error + real list" where
  "next_vector2_precomputed T this n i v =
     (if i < n then
        (case vget (m_offset this) i of
           None \<Rightarrow> Inl AssertionFailed
         | Some off \<Rightarrow>
             (case rotate T (PrecomputedHaltonSequence T (m_instance this * 4 + i)) off of
                Inl e \<Rightarrow> Inl e
              | Inr x \<Rightarrow> next_vector2_precomputed T this n (i + 1) (v @ [x])))
      else Inr v)"
  by pat_completeness auto
termination
proof (relation "measure (\<lambda>(T, this, n, i, v). unat n - unat i)")
  show "wf (measure (\<lambda>(T, this, n, i, v). unat n - unat i))" by simp
next
  fix T :: "'r tables" and this :: ctx and n i :: size_t and v :: "real list" and x :: real
  assume "i < n"
  then have "unat i < unat n" and "unat (i + 1) = Suc (unat i)"
    by unat_arith+
  then show "((T, this, n, i + 1, v @ [x]), (T, this, n, i, v))
               \<in> measure (\<lambda>(T, this, n, i, v). unat n - unat i)"
    by simp
qed

declare next_vector2_precomputed.simps [simp del]

function next_vector2_computed ::
  "'r tables \<Rightarrow> ctx \<Rightarrow> size_t \<Rightarrow> size_t \<Rightarrow> real list \<Rightarrow> error + real list" where
  "next_vector2_computed T this n i v =
     (if i < n then
        (case vget (m_offset this) i of
           None \<Rightarrow> Inl AssertionFailed
         | Some off \<Rightarrow>
             (case rotate T (fast_radical_inverse T i (m_instance this)) off of
                Inl e \<Rightarrow> Inl e
              | Inr x \<Rightarrow> next_vector2_computed T this n (i + 1) (v @ [x])))
      else Inr v)"
  by pat_completeness auto
termination
proof (relation "measure (\<lambda>(T, this, n, i, v). unat n - unat i)")
  show "wf (measure (\<lambda>(T, this, n, i, v). unat n - unat i))" by simp
next
  fix T :: "'r tables" and this :: ctx and n i :: size_t and v :: "real list" and x :: real
  assume "i < n"
  then have "unat i < unat n" and "unat (i + 1) = Suc (unat i)"
    by unat_arith+
  then show "((T, this, n, i + 1, v @ [x]), (T, this, n, i, v))
               \<in> measure (\<lambda>(T, this, n, i, v). unat n - unat i)"
    by simp
qed

declare next_vector2_computed.simps [simp del]

text \<open>\<open>next_vector2(n, v)\<close>: the three assertions, one of the two branches, then
  \<open>++m_instance\<close>.\<close>

definition next_vector2 :: "'r tables \<Rightarrow> ctx \<Rightarrow> size_t \<Rightarrow> error + (real list \<times> ctx)" where
  "next_vector2 T this n =
     (if \<not> (m_sample_count this = 0 \<or> m_instance this < m_sample_count this)
      then Inl AssertionFailed
      else if \<not> n = m_dimension this then Inl AssertionFailed
      else if \<not> n \<le> PrimeTableSize T then Inl AssertionFailed
      else
        (case
           (if m_instance this < PrecomputedHaltonSequenceSize T
            then next_vector2_precomputed T this n 0 []
            else
              (case vget (m_offset this) 0 of
                 None \<Rightarrow> Inl AssertionFailed
               | Some off \<Rightarrow>
                   (case rotate T (radical_inverse_base2 T (m_instance this)) off of
                      Inl e \<Rightarrow> Inl e
                    | Inr x \<Rightarrow> next_vector2_computed T this n 1 [x])))
         of
           Inl e \<Rightarrow> Inl e
         | Inr v \<Rightarrow> Inr (v, this\<lparr>m_instance := m_instance this + 1\<rparr>)))"

text \<open>The fixed-width form \<open>next_vector2<N>()\<close> and the scalar form
  \<open>next_double2()\<close>, which returns component 0 of \<open>next_vector2<1>()\<close>.\<close>

definition next_vector2_N :: "'r tables \<Rightarrow> size_t \<Rightarrow> ctx \<Rightarrow> error + (real list \<times> ctx)" where
  "next_vector2_N T N this = next_vector2 T this N"

definition next_double2 :: "'r tables \<Rightarrow> ctx \<Rightarrow> error + (real \<times> ctx)" where
  "next_double2 T this =
     (case next_vector2_N T 1 this of
        Inl e \<Rightarrow> Inl e
      | Inr (v, this') \<Rightarrow> (case v of [] \<Rightarrow> Inl AssertionFailed | x # _ \<Rightarrow> Inr (x, this')))"

section \<open>Objects in a store\<close>

text \<open>
  Contexts are objects: a statement such as \<open>b = a;\<close> or \<open>a.split_in_place(d, n);\<close>
  acts on the object stored at an address and, through \<open>m_rng\<close>, on a generator.
  A world holds the contexts and the generators; the functions below run one member
  function on the object at address \<open>this\<close> and store the result back.
\<close>

record 'r world =
  objs :: "addr \<Rightarrow> ctx"
  rngs :: "addr \<Rightarrow> 'r"

definition assign_at :: "addr \<Rightarrow> addr \<Rightarrow> 'r world \<Rightarrow> 'r world" where
  "assign_at this rhs w = w\<lparr>objs := (objs w)(this := assign (objs w this) (objs w rhs))\<rparr>"

definition split_in_place_at ::
  "'r tables \<Rightarrow> addr \<Rightarrow> size_t \<Rightarrow> size_t \<Rightarrow> 'r world \<Rightarrow> error + 'r world" where
  "split_in_place_at T this dimension sample_count w =
     (case split_in_place T (objs w this) dimension sample_count (rngs w) of
        Inl e \<Rightarrow> Inl e
      | Inr (c, rs) \<Rightarrow> Inr (w\<lparr>objs := (objs w)(this := c), rngs := rs\<rparr>))"

definition set_instance_at :: "addr \<Rightarrow> size_t \<Rightarrow> 'r world \<Rightarrow> 'r world" where
  "set_instance_at this instance w =
     w\<lparr>objs := (objs w)(this := set_instance (objs w this) instance)\<rparr>"

definition next_vector2_at ::
  "'r tables \<Rightarrow> addr \<Rightarrow> size_t \<Rightarrow> 'r world \<Rightarrow> error + (real list \<times> 'r world)" where
  "next_vector2_at T this n w =
     (case next_vector2 T (objs w this) n of
        Inl e \<Rightarrow> Inl e
      | Inr (v, c) \<Rightarrow> Inr (v, w\<lparr>objs := (objs w)(this := c)\<rparr>))"

text \<open>The deterministic value of local dimension \<open>i\<close> before rotation, as
  \<open>next_vector2\<close> reads or computes it, and what it means for \<open>y\<close> to be the rotated
  value of local dimension \<open>j\<close>.\<close>

definition base_value :: "'r tables \<Rightarrow> ctx \<Rightarrow> size_t \<Rightarrow> real" where
  "base_value T c i =
     (if m_instance c < PrecomputedHaltonSequenceSize T
      then PrecomputedHaltonSequence T (m_instance c * 4 + i)
      else if i = 0 then radical_inverse_base2 T (m_instance c)
      else fast_radical_inverse T i (m_instance c))"

text \<open>The components of the offset that a call of \<open>next_vector2(n, v)\<close> reads: the
  ones below \<open>n\<close>, and component 0 whenever the instance is past the cache.\<close>

definition reads :: "'r tables \<Rightarrow> ctx \<Rightarrow> size_t \<Rightarrow> size_t \<Rightarrow> bool" where
  "reads T c n i \<longleftrightarrow> i < n \<or> (i = 0 \<and> \<not> m_instance c < PrecomputedHaltonSequenceSize T)"

definition rotated :: "'r tables \<Rightarrow> ctx \<Rightarrow> nat \<Rightarrow> real \<Rightarrow> bool" where
  "rotated T c j y =
     (case vget (m_offset c) (of_nat j) of
        None \<Rightarrow> False
      | Some off \<Rightarrow> rotate T (base_value T c (of_nat j)) off = Inr y)"

text \<open>Two contexts from which \<open>next_vector2\<close> reads the same data: equal dimension,
  sample count and instance, and equal offsets in component 0 and in every component
  below the dimension.\<close>

definition same_samples :: "ctx \<Rightarrow> ctx \<Rightarrow> bool" where
  "same_samples c1 c2 \<longleftrightarrow>
     m_dimension c1 = m_dimension c2 \<and> m_sample_count c1 = m_sample_count c2 \<and>
     m_instance c1 = m_instance c2 \<and> vget (m_offset c1) 0 = vget (m_offset c2) 0 \<and>
     list_all (\<lambda>j. j < m_dimension c1 \<longrightarrow> vget (m_offset c1) j = vget (m_offset c2) j)
       [0, 1, 2, 3]"

section \<open>Clients: successive draws\<close>

text \<open>\<open>k\<close> successive calls of \<open>next_vector2(n, v)\<close>, respectively of
  \<open>next_double2()\<close>, on one context; the samples are collected in order.\<close>

fun draw_vectors :: "'r tables \<Rightarrow> size_t \<Rightarrow> nat \<Rightarrow> ctx \<Rightarrow> error + (real list list \<times> ctx)" where
  "draw_vectors T n 0 c = Inr ([], c)"
| "draw_vectors T n (Suc k) c =
     (case next_vector2 T c n of
        Inl e \<Rightarrow> Inl e
      | Inr (v, c') \<Rightarrow>
          (case draw_vectors T n k c' of
             Inl e \<Rightarrow> Inl e
           | Inr (vs, c'') \<Rightarrow> Inr (v # vs, c'')))"

fun draw_doubles :: "'r tables \<Rightarrow> nat \<Rightarrow> ctx \<Rightarrow> error + (real list \<times> ctx)" where
  "draw_doubles T 0 c = Inr ([], c)"
| "draw_doubles T (Suc k) c =
     (case next_double2 T c of
        Inl e \<Rightarrow> Inl e
      | Inr (x, c') \<Rightarrow>
          (case draw_doubles T k c' of
             Inl e \<Rightarrow> Inl e
           | Inr (xs, c'') \<Rightarrow> Inr (x # xs, c'')))"

text \<open>The samples a freshly constructed context emits in its first \<open>k\<close> draws, or the
  error that stops the construction or a draw.\<close>

definition emitted ::
  "'r tables \<Rightarrow> nat \<Rightarrow> error + (ctx \<times> (addr \<Rightarrow> 'r)) \<Rightarrow> error + real list list" where
  "emitted T k r =
     (case r of
        Inl e \<Rightarrow> Inl e
      | Inr (c, rs) \<Rightarrow>
          (case draw_vectors T (m_dimension c) k c of
             Inl e \<Rightarrow> Inl e
           | Inr (vs, c') \<Rightarrow> Inr vs))"

text \<open>The number of random draws the loop of \<open>compute_offset\<close> asks for in \<open>n\<close>
  iterations that start at the global dimension \<open>d\<close>: one for each dimension outside the
  permutation table.\<close>

fun padded_count :: "'r tables \<Rightarrow> size_t \<Rightarrow> nat \<Rightarrow> nat" where
  "padded_count T d 0 = 0"
| "padded_count T d (Suc n) =
     (if d < FaurePermutationTableSize T then 0 else 1) + padded_count T (d + 1) n"

section \<open>The sequence provider, from the specification\<close>

text \<open>
  Modelled from the spec: the functions and tables of \<open>qmc.h\<close>, \<open>primes.h\<close> and
  \<open>permutation.h\<close>, which are missing from the sources. The radical inverse maps an
  index to the fraction obtained by reversing its digits in the given base; the
  permuted radical inverse remaps every digit through a permutation first.
\<close>

function permuted_radical_inverse_spec :: "nat \<Rightarrow> (nat \<Rightarrow> nat) \<Rightarrow> nat \<Rightarrow> real" where
  "permuted_radical_inverse_spec b p n =
     (if b < 2 \<or> n = 0 then 0
      else (real (p (n mod b)) + permuted_radical_inverse_spec b p (n div b)) / real b)"
  by pat_completeness auto
termination
  by (relation "measure (\<lambda>(b, p, n). n)") auto

declare permuted_radical_inverse_spec.simps [simp del]

text \<open>Modelled from the spec: the radical inverse proper, of \<open>qmc.h\<close>, is the permuted
  one with the identity permutation.\<close>

definition radical_inverse_spec :: "nat \<Rightarrow> nat \<Rightarrow> real" where
  "radical_inverse_spec b n = permuted_radical_inverse_spec b (\<lambda>k. k) n"

text \<open>
  Modelled from the spec: the tables of a sequence provider with the prime table
  \<open>primes\<close>, a permutation table covering \<open>F\<close> dimensions, a cache of \<open>K\<close>
  four-dimensional Halton points (bases 2, 3, 5 and 7, four values per instance) and
  the generator function \<open>rnd\<close>. Its values are the exact ones and its arithmetic is
  exact.
\<close>

definition halton_tables ::
  "nat list \<Rightarrow> size_t \<Rightarrow> size_t \<Rightarrow> (size_t \<Rightarrow> nat list) \<Rightarrow> ('r \<Rightarrow> real \<times> 'r) \<Rightarrow> 'r tables" where
  "halton_tables primes F K perms rnd =
     \<lparr>FaurePermutationTableSize = F,
      PrimeTableSize = of_nat (length primes),
      PrecomputedHaltonSequenceSize = K,
      PrecomputedHaltonSequence =
        (\<lambda>k. radical_inverse_spec ([2, 3, 5, 7] ! unat (k mod 4)) (unat (k div 4))),
      FaurePermutations = perms,
      fast_permuted_radical_inverse =
        (\<lambda>d perm n. permuted_radical_inverse_spec (primes ! unat d) (\<lambda>k. perm ! k) (unat n)),
      radical_inverse_base2 = (\<lambda>n. radical_inverse_spec 2 (unat n)),
      fast_radical_inverse = (\<lambda>i n. radical_inverse_spec (primes ! unat i) (unat n)),
      rand_double2 = rnd,
      double_round = (\<lambda>x. x)\<rparr>"

text \<open>A small provider for concrete runs: eight primes, six covered dimensions with
  identity permutations, two cached points, and a generator that always returns 0.3
  and counts its draws.\<close>

definition demo_tables :: "nat tables" where
  "demo_tables =
     halton_tables [2, 3, 5, 7, 11, 13, 17, 19] 6 2 (\<lambda>d. [0, 1, 2, 3, 4, 5, 6, 7, 8, 9, 10, 11, 12])
       (\<lambda>r. (3 / 10, Suc r))"

text \<open>Contexts for concrete runs: one in the middle of a bounded sequence, the child
  and grandchild that splitting it yields, one that has emitted all its samples, and a
  world that holds two of them, with every generator in its initial state.\<close>

definition mid_sequence :: ctx where
  "mid_sequence =
     \<lparr>m_rng = 0, m_base_dimension = 0, m_base_instance = 0, m_dimension = 2,
      m_sample_count = 64, m_instance = 7, m_offset = vfill 0\<rparr>"

definition demo_child :: ctx where
  "demo_child =
     \<lparr>m_rng = 0, m_base_dimension = 2, m_base_instance = 7, m_dimension = 3,
      m_sample_count = 16, m_instance = 0, m_offset = Vector4 (11 / 25) (1 / 49) (7 / 11) 0\<rparr>"

definition demo_grandchild :: ctx where
  "demo_grandchild =
     \<lparr>m_rng = 0, m_base_dimension = 5, m_base_instance = 7, m_dimension = 2,
      m_sample_count = 4, m_instance = 0, m_offset = Vector4 (7 / 13) (3 / 10) 0 0\<rparr>"

definition exhausted :: ctx where
  "exhausted =
     \<lparr>m_rng = 0, m_base_dimension = 4, m_base_instance = 3, m_dimension = 2,
      m_sample_count = 5, m_instance = 5, m_offset = Vector4 (1 / 2) (1 / 4) 0 0\<rparr>"

definition fresh_generators :: "addr \<Rightarrow> nat" where
  "fresh_generators = (\<lambda>a. 0)"

definition demo_world :: "nat world" where
  "demo_world =
     \<lparr>objs = (\<lambda>a. if a = 1 then exhausted else if a = 2 then mid_sequence else QMCSamplingContext0 7),
      rngs = fresh_generators\<rparr>"


text \<open>A one-dimensional root context.\<close>

definition root1 :: ctx where
  "root1 = \<lparr>m_rng = 0, m_base_dimension = 0, m_base_instance = 0, m_dimension = 1,
            m_sample_count = 4, m_instance = 0, m_offset = vfill 0\<rparr>"

text \<open>A provider for runs in binary64: the small provider with a cache of one point,
  values of \<open>fast_radical_inverse\<close> rounded to binary64, and the arithmetic of binary64.
  With it, a context of dimension 2 past the cache whose two offsets make both
  components wrap, the first one after a sum that is rounded up to 1; its other two
  offset components are out of range, as uninitialised memory may be.\<close>

definition binary64_tables :: "nat tables" where
  "binary64_tables =
     demo_tables\<lparr>PrecomputedHaltonSequenceSize := 1,
                 fast_radical_inverse := (\<lambda>i n. round_binary64 (fast_radical_inverse demo_tables i n)),
                 double_round := round_binary64\<rparr>"

definition wrapping :: ctx where
  "wrapping = \<lparr>m_rng = 0, m_base_dimension = 0, m_base_instance = 0, m_dimension = 2,
               m_sample_count = 0, m_instance = 1,
               m_offset = Vector4 (9007199254740991 / 18014398509481984) (3 / 4) (- 7) 9\<rparr>"

text \<open>Generators in another state, another generator function, and a
  three-dimensional root context.\<close>

definition used_generators :: "addr \<Rightarrow> nat" where
  "used_generators = (\<lambda>a. 5)"

definition other_generator :: "nat \<Rightarrow> real \<times> nat" where
  "other_generator = (\<lambda>r. (9 / 10, r + 2))"


text \<open>The same contexts and world after a split in place and after a draw.\<close>

definition exhausted_split :: ctx where
  "exhausted_split =
     \<lparr>m_rng = 0, m_base_dimension = 6, m_base_instance = 8, m_dimension = 2,
      m_sample_count = 1, m_instance = 0, m_offset = Vector4 (3 / 10) (3 / 10) 0 0\<rparr>"

definition demo_world_split :: "nat world" where
  "demo_world_split =
     (assign_at 2 1 demo_world)
       \<lparr>objs := (objs (assign_at 2 1 demo_world))(1 := exhausted_split),
        rngs := fresh_generators(0 := Suc (Suc 0))\<rparr>"

definition demo_world_drawn :: "nat world" where
  "demo_world_drawn =
     demo_world\<lparr>objs := (objs demo_world)(2 := mid_sequence\<lparr>m_instance := 8\<rparr>)\<rparr>"

section \<open>Properties of the offset loop\<close>

text \<open>Subscripts are defined on the indices 0 to 3 and nowhere else.\<close>

lemma word_lt4_cases: "(i::size_t) < 4 \<Longrightarrow> i = 0 \<or> i = 1 \<or> i = 2 \<or> i = 3"
  by unat_arith

lemma word_lt2_cases: "(i::size_t) < 2 \<Longrightarrow> i = 0 \<or> i = 1"
  by unat_arith

lemma word_of_nat_below: "j < unat (n::size_t) \<Longrightarrow> of_nat j < n"
proof -
  assume a: "j < unat n"
  have "unat (of_nat j :: size_t) \<le> j"
    by (simp add: unat_of_nat)
  with a show ?thesis by (simp add: word_less_nat_alt)
qed

lemma vset_eq_None: "vset v i x = None \<longleftrightarrow> \<not> i < 4"
  by (cases v) (auto dest: word_lt4_cases)

lemma vget_eq_None: "vget v i = None \<longleftrightarrow> \<not> i < 4"
  by (cases v) (auto dest: word_lt4_cases)

text \<open>One step of the loop of \<open>compute_offset\<close>, by the case it takes.\<close>

lemma compute_offset_loop_stop:
  "\<not> i < m_dimension c \<Longrightarrow> compute_offset_loop T i d c rs = Inr (c, rs)"
  by (simp add: compute_offset_loop.simps)

lemma compute_offset_loop_covered:
  "i < m_dimension c \<Longrightarrow> d < FaurePermutationTableSize T \<Longrightarrow>
   compute_offset_loop T i d c rs =
     (if \<not> d < PrimeTableSize T then Inl AssertionFailed
      else
        (case vset (m_offset c) i
                (fast_permuted_radical_inverse T d (FaurePermutations T d) (m_base_instance c)) of
           None \<Rightarrow> Inl AssertionFailed
         | Some off \<Rightarrow> compute_offset_loop T (i + 1) (d + 1) (c\<lparr>m_offset := off\<rparr>) rs))"
  by (subst compute_offset_loop.simps) simp

lemma compute_offset_loop_padded:
  "i < m_dimension c \<Longrightarrow> \<not> d < FaurePermutationTableSize T \<Longrightarrow>
   rand_double2 T (rs (m_rng c)) = (x, r') \<Longrightarrow>
   compute_offset_loop T i d c rs =
     (case vset (m_offset c) i x of
        None \<Rightarrow> Inl AssertionFailed
      | Some off \<Rightarrow>
          compute_offset_loop T (i + 1) (d + 1) (c\<lparr>m_offset := off\<rparr>) (rs(m_rng c := r')))"
  by (subst compute_offset_loop.simps) simp

text \<open>\<open>compute_offset\<close> writes \<open>m_offset\<close> and no other member.\<close>

lemma compute_offset_loop_fields:
  "compute_offset_loop T i d c rs = Inr (c', rs') \<Longrightarrow> c' = c\<lparr>m_offset := m_offset c'\<rparr>"
proof (induction T i d c rs rule: compute_offset_loop.induct)
  case (1 T i d c rs)
  consider (stop) "\<not> i < m_dimension c"
    | (covered) "i < m_dimension c" "d < FaurePermutationTableSize T"
    | (padded) "i < m_dimension c" "\<not> d < FaurePermutationTableSize T"
    by blast
  then show ?case
  proof cases
    case stop
    with "1.prems" show ?thesis by (simp add: compute_offset_loop_stop)
  next
    case covered
    with "1.prems" obtain off where p: "d < PrimeTableSize T"
      and v: "vset (m_offset c) i
                (fast_permuted_radical_inverse T d (FaurePermutations T d) (m_base_instance c)) = Some off"
      and l: "compute_offset_loop T (i + 1) (d + 1) (c\<lparr>m_offset := off\<rparr>) rs = Inr (c', rs')"
      by (auto simp: compute_offset_loop_covered split: if_splits option.splits)
    from "1.IH"(1) [OF covered _ v l] p have "c' = c\<lparr>m_offset := off\<rparr>\<lparr>m_offset := m_offset c'\<rparr>"
      by simp
    then show ?thesis by simp
  next
    case padded
    obtain x r' where r: "rand_double2 T (rs (m_rng c)) = (x, r')"
      by (cases "rand_double2 T (rs (m_rng c))")
    from "1.prems" obtain off where v: "vset (m_offset c) i x = Some off"
      and l: "compute_offset_loop T (i + 1) (d + 1) (c\<lparr>m_offset := off\<rparr>) (rs(m_rng c := r')) = Inr (c', rs')"
      by (auto simp: compute_offset_loop_padded [where rs = rs, OF padded r] split: option.splits)
    from "1.IH"(2) [OF padded r [symmetric] v l] have "c' = c\<lparr>m_offset := off\<rparr>\<lparr>m_offset := m_offset c'\<rparr>"
      by simp
    then show ?thesis by simp
  qed
qed

text \<open>With at most four dimensions and a prime table at least as long as the
  permutation table, no assertion of the loop fails.\<close>

lemma compute_offset_loop_succeeds:
  "m_dimension c \<le> 4 \<Longrightarrow> FaurePermutationTableSize T \<le> PrimeTableSize T \<Longrightarrow>
   \<exists>c' rs'. compute_offset_loop T i d c rs = Inr (c', rs')"
proof (induction T i d c rs rule: compute_offset_loop.induct)
  case (1 T i d c rs)
  consider (stop) "\<not> i < m_dimension c"
    | (covered) "i < m_dimension c" "d < FaurePermutationTableSize T"
    | (padded) "i < m_dimension c" "\<not> d < FaurePermutationTableSize T"
    by blast
  then show ?case
  proof cases
    case stop
    then show ?thesis by (simp add: compute_offset_loop_stop)
  next
    case covered
    with "1.prems" have p: "d < PrimeTableSize T" and i4: "i < 4" by auto
    from i4 obtain off where v: "vset (m_offset c) i
                (fast_permuted_radical_inverse T d (FaurePermutations T d) (m_base_instance c)) = Some off"
      using vset_eq_None by (metis not_Some_eq)
    from "1.IH"(1) [OF covered _ v] p "1.prems" show ?thesis
      by (simp add: compute_offset_loop_covered [OF covered] v)
  next
    case padded
    obtain x r' where r: "rand_double2 T (rs (m_rng c)) = (x, r')"
      by (cases "rand_double2 T (rs (m_rng c))")
    from padded "1.prems" have i4: "i < 4" by auto
    then obtain off where v: "vset (m_offset c) i x = Some off"
      using vset_eq_None by (metis not_Some_eq)
    from "1.IH"(2) [OF padded r [symmetric] v] "1.prems"
    have "\<exists>c' rs'. compute_offset_loop T (i + 1) (d + 1) (c\<lparr>m_offset := off\<rparr>) (rs(m_rng c := r')) = Inr (c', rs')"
      by (simp add: fun_upd_def)
    then show ?thesis
      by (simp add: compute_offset_loop_padded [where rs = rs, OF padded r] v)
  qed
qed

text \<open>The generator is advanced once for each padded dimension, and not otherwise.\<close>

lemma remaining_Suc:
  "i < (n::size_t) \<Longrightarrow> unat n - unat i = Suc (unat n - unat (i + 1))"
  by unat_arith

lemma compute_offset_loop_rng:
  "compute_offset_loop T i d c rs = Inr (c', rs') \<Longrightarrow>
   rs' = rs(m_rng c := ((\<lambda>r. snd (rand_double2 T r)) ^^ padded_count T d (unat (m_dimension c) - unat i))
                         (rs (m_rng c)))"
proof (induction T i d c rs rule: compute_offset_loop.induct)
  case (1 T i d c rs)
  define f where "f = (\<lambda>r. snd (rand_double2 T r))"
  consider (stop) "\<not> i < m_dimension c"
    | (covered) "i < m_dimension c" "d < FaurePermutationTableSize T"
    | (padded) "i < m_dimension c" "\<not> d < FaurePermutationTableSize T"
    by blast
  then show ?case
  proof cases
    case stop
    then have "unat (m_dimension c) - unat i = 0" by unat_arith
    with stop "1.prems" show ?thesis by (simp add: compute_offset_loop_stop)
  next
    case covered
    with "1.prems" obtain off where p: "d < PrimeTableSize T"
      and v: "vset (m_offset c) i
                (fast_permuted_radical_inverse T d (FaurePermutations T d) (m_base_instance c)) = Some off"
      and l: "compute_offset_loop T (i + 1) (d + 1) (c\<lparr>m_offset := off\<rparr>) rs = Inr (c', rs')"
      by (auto simp: compute_offset_loop_covered split: if_splits option.splits)
    from "1.IH"(1) [OF covered _ v l] p covered show ?thesis
      by (simp add: remaining_Suc [OF covered(1)])
  next
    case padded
    obtain x r' where r: "rand_double2 T (rs (m_rng c)) = (x, r')"
      by (cases "rand_double2 T (rs (m_rng c))")
    from "1.prems" obtain off where v: "vset (m_offset c) i x = Some off"
      and l: "compute_offset_loop T (i + 1) (d + 1) (c\<lparr>m_offset := off\<rparr>) (rs(m_rng c := r')) = Inr (c', rs')"
      by (auto simp: compute_offset_loop_padded [where rs = rs, OF padded r] split: option.splits)
    let ?k = "padded_count T (d + 1) (unat (m_dimension c) - unat (i + 1))"
    from "1.IH"(2) [OF padded r [symmetric] v l]
    have "rs' = rs(m_rng c := (f ^^ ?k) r')"
      by (auto simp: fun_upd_def f_def)
    moreover have "r' = f (rs (m_rng c))"
      by (simp add: f_def r)
    moreover have "padded_count T d (unat (m_dimension c) - unat i) = Suc ?k"
      using padded by (simp add: remaining_Suc [OF padded(1)])
    moreover have "(f ^^ Suc ?k) (rs (m_rng c)) = (f ^^ ?k) (f (rs (m_rng c)))"
      by (simp only: funpow_Suc_right o_apply)
    ultimately show ?thesis
      unfolding f_def [symmetric] by (simp only:)
  qed
qed

lemma padded_count_le: "padded_count T d n \<le> n"
  by (induction n arbitrary: d) (auto simp: le_SucI)

section \<open>The closed-interval family\<close>

text \<open>
  Claim C9. Every operation of the closed-interval family fails with the
  not-implemented exception, whatever the context and the arguments: the raw-buffer form
  \<open>next_vector1(n, v)\<close>, the fixed-width form \<open>next_vector1<N>()\<close> and the scalar form
  \<open>next_double1()\<close>. None of them returns a value.
\<close>

theorem closed_family_not_implemented:
  "next_vector1 this n = Inl ExceptionNotImplemented \<and>
   next_vector1_N N this = Inl ExceptionNotImplemented \<and>
   next_double1 this = Inl ExceptionNotImplemented"
  by (simp add: next_vector1_def next_vector1_N_def next_double1_def)

section \<open>Members written by construction and splitting\<close>

text \<open>The private constructor sets the scalar members to its arguments.\<close>

lemma compute_offset_fields:
  "compute_offset T c rs = Inr (c', rs') \<Longrightarrow> c' = c\<lparr>m_offset := m_offset c'\<rparr>"
  unfolding compute_offset_def by (rule compute_offset_loop_fields)

lemma child_fields:
  assumes "QMCSamplingContext_child T rng bd bi dm n u rs = Inr (c, rs')"
  shows "m_rng c = rng" "m_base_dimension c = bd" "m_base_instance c = bi"
    "m_dimension c = dm" "m_sample_count c = n" "m_instance c = 0"
proof -
  let ?c0 = "\<lparr>m_rng = rng, m_base_dimension = bd, m_base_instance = bi,
              m_dimension = dm, m_sample_count = n, m_instance = 0, m_offset = u\<rparr>"
  from assms have "compute_offset T ?c0 rs = Inr (c, rs')"
    by (simp add: QMCSamplingContext_child_def split: if_splits)
  then have e: "c = ?c0\<lparr>m_offset := m_offset c\<rparr>"
    by (rule compute_offset_fields)
  show "m_rng c = rng" by (subst e) simp
  show "m_base_dimension c = bd" by (subst e) simp
  show "m_base_instance c = bi" by (subst e) simp
  show "m_dimension c = dm" by (subst e) simp
  show "m_sample_count c = n" by (subst e) simp
  show "m_instance c = 0" by (subst e) simp
qed

text \<open>\<open>split_in_place\<close> is \<open>split\<close> applied to the receiver, after the check of the
  sequence position; the receiver's old offset takes the place of the fresh object's
  contents.\<close>

lemma split_in_place_eq_split:
  "split_in_place T c d n rs =
     (if m_sample_count c = 0 \<or> m_instance c = m_sample_count c
      then split T c d n (m_offset c) rs else Inl AssertionFailed)"
proof -
  have eq: "c\<lparr>m_base_dimension := m_base_dimension c + m_dimension c,
          m_base_instance := m_base_instance c + m_instance c,
          m_dimension := d, m_sample_count := n, m_instance := 0\<rparr>
        = \<lparr>m_rng = m_rng c, m_base_dimension = m_base_dimension c + m_dimension c,
           m_base_instance = m_base_instance c + m_instance c,
           m_dimension = d, m_sample_count = n, m_instance = 0, m_offset = m_offset c\<rparr>"
    by simp
  show ?thesis
    unfolding split_in_place_def split_def QMCSamplingContext_child_def eq by simp
qed

lemma split_in_place_fields:
  assumes "split_in_place T c d n rs = Inr (c', rs')"
  shows "m_rng c' = m_rng c"
proof -
  from assms have "split T c d n (m_offset c) rs = Inr (c', rs')"
    by (simp add: split_in_place_eq_split split: if_splits)
  from child_fields(1) [OF this [unfolded split_def]] show ?thesis .
qed

text \<open>Concrete runs of the two forms of splitting.\<close>

lemmas demo_simps =
  split_def split_in_place_def QMCSamplingContext_child_def VectorType_Dimension_def
  compute_offset_def compute_offset_loop.simps demo_tables_def halton_tables_def vfill_def
  permuted_radical_inverse_spec.simps radical_inverse_spec_def

lemma split_mid_sequence_demo:
  "split demo_tables mid_sequence 3 16 (vfill 0) fresh_generators = Inr (demo_child, fresh_generators)"
  by (simp add: demo_simps mid_sequence_def demo_child_def)

lemma split_demo_child:
  "split demo_tables demo_child 2 4 (vfill 0) fresh_generators
     = Inr (demo_grandchild, fresh_generators(0 := 1))"
  by (simp add: demo_simps demo_child_def demo_grandchild_def fresh_generators_def)

lemma split_in_place_at_demo:
  "split_in_place_at demo_tables 1 2 1 (assign_at 2 1 demo_world) = Inr demo_world_split"
  by (simp add: split_in_place_at_def assign_at_def demo_world_def demo_world_split_def
      exhausted_def exhausted_split_def fresh_generators_def
      split_in_place_def VectorType_Dimension_def compute_offset_def
      compute_offset_loop.simps demo_tables_def halton_tables_def)


lemma next_vector2_at_demo:
  "next_vector2_at demo_tables 2 2 demo_world = Inr ([7 / 8, 5 / 9], demo_world_drawn)"
  by (simp add: next_vector2_at_def next_vector2_def demo_world_def demo_world_drawn_def
      mid_sequence_def next_vector2_computed.simps rotate_def vfill_def
      demo_tables_def halton_tables_def radical_inverse_spec_def permuted_radical_inverse_spec.simps)

lemma compute_offset_demo:
  "compute_offset demo_tables demo_grandchild fresh_generators
     = Inr (demo_grandchild, fresh_generators(0 := 1))"
  by (simp add: demo_grandchild_def fresh_generators_def compute_offset_def
      compute_offset_loop.simps demo_tables_def halton_tables_def permuted_radical_inverse_spec.simps)


section \<open>Splitting\<close>

text \<open>
  Claim C1. Split composition law: a child returned by \<open>split(d, n)\<close> has the total
  dimension of its parent plus \<open>d\<close> and the total instance of its parent. Two splits
  in sequence, with no sample drawn in between, give the grandchild the base dimension
  and base instance of the parent plus the summed deltas, and they give the very result
  of a single split of a context that carries the summed deltas.
\<close>

theorem split_composition:
  "(split T P d n u rs = Inr (child, rs') \<longrightarrow>
      get_total_dimension child = get_total_dimension P + d \<and>
      get_total_instance child = get_total_instance P) \<and>
   (split T P d n u rs = Inr (child, rs') \<and> split T child d2 n2 u2 rs' = Inr (grandchild, rs'') \<longrightarrow>
      m_base_dimension grandchild = m_base_dimension P + (m_dimension P + d) \<and>
      m_base_instance grandchild = m_base_instance P + (m_instance P + 0) \<and>
      split T (P\<lparr>m_dimension := m_dimension P + d, m_instance := m_instance P + 0\<rparr>) d2 n2 u2 rs'
        = Inr (grandchild, rs''))"
proof (intro conjI impI)
  assume s: "split T P d n u rs = Inr (child, rs')"
  note f = child_fields [OF s [unfolded split_def]]
  show "get_total_dimension child = get_total_dimension P + d"
    by (simp add: get_total_dimension_def f)
  show "get_total_instance child = get_total_instance P"
    by (simp add: get_total_instance_def f)
next
  assume "split T P d n u rs = Inr (child, rs') \<and> split T child d2 n2 u2 rs' = Inr (grandchild, rs'')"
  then have s: "split T P d n u rs = Inr (child, rs')"
    and s2: "split T child d2 n2 u2 rs' = Inr (grandchild, rs'')" by simp_all
  note f = child_fields [OF s [unfolded split_def]]
  note g = child_fields [OF s2 [unfolded split_def]]
  show "m_base_dimension grandchild = m_base_dimension P + (m_dimension P + d)"
    by (simp add: g f add.assoc)
  show "m_base_instance grandchild = m_base_instance P + (m_instance P + 0)"
    by (simp add: g f)
  show "split T (P\<lparr>m_dimension := m_dimension P + d, m_instance := m_instance P + 0\<rparr>) d2 n2 u2 rs'
        = Inr (grandchild, rs'')"
    using s2 by (simp add: split_def f add.assoc)
qed


theorem split_composition_witness:
  "split demo_tables mid_sequence 3 16 (vfill 0) fresh_generators = Inr (demo_child, fresh_generators) \<and>
   split demo_tables demo_child 2 4 (vfill 0) fresh_generators
     = Inr (demo_grandchild, fresh_generators(0 := 1)) \<and>
   get_total_dimension demo_child = get_total_dimension mid_sequence + 3 \<and>
   get_total_instance demo_child = get_total_instance mid_sequence \<and>
   m_base_dimension demo_grandchild = m_base_dimension mid_sequence + (m_dimension mid_sequence + 3) \<and>
   m_base_instance demo_grandchild = m_base_instance mid_sequence + (m_instance mid_sequence + 0)"
  using split_composition [where T = demo_tables and P = mid_sequence and d = 3 and n = 16
      and u = "vfill 0" and rs = fresh_generators and child = demo_child and rs' = fresh_generators
      and ?d2.0 = 2 and ?n2.0 = 4 and ?u2.0 = "vfill 0" and grandchild = demo_grandchild
      and rs'' = "fresh_generators(0 := 1)"]
    split_mid_sequence_demo split_demo_child
  by simp

text \<open>
  Claim C3, as the code has it. \<open>split_in_place\<close> fails its assertion on a context with
  \<open>sample_count > 0\<close> and \<open>instance < sample_count\<close>; it runs only when the sequence
  is unbounded or exhausted, and then it does what \<open>split\<close> does. The child-returning
  \<open>split\<close> has no such check: its result does not depend on the receiver's
  \<open>sample_count\<close>, and it returns a child from any receiver when the child has at most
  four dimensions and the prime table is at least as long as the permutation table.
\<close>

theorem split_in_place_checks_sequence:
  "(0 < m_sample_count c \<and> m_instance c < m_sample_count c \<longrightarrow>
      split_in_place T c d n rs = Inl AssertionFailed) \<and>
   split_in_place T c d n rs =
     (if m_sample_count c = 0 \<or> m_instance c = m_sample_count c
      then split T c d n (m_offset c) rs else Inl AssertionFailed) \<and>
   split T (c\<lparr>m_sample_count := s\<rparr>) d n u rs = split T c d n u rs \<and>
   (d \<le> VectorType_Dimension \<and> FaurePermutationTableSize T \<le> PrimeTableSize T \<longrightarrow>
      (\<exists>child rs'. split T c d n u rs = Inr (child, rs')))"
proof -
  have "0 < m_sample_count c \<and> m_instance c < m_sample_count c \<longrightarrow>
      \<not> (m_sample_count c = 0 \<or> m_instance c = m_sample_count c)"
    by auto
  moreover have "split T (c\<lparr>m_sample_count := s\<rparr>) d n u rs = split T c d n u rs"
    by (simp add: split_def)
  moreover have "\<exists>child rs'. split T c d n u rs = Inr (child, rs')"
    if "d \<le> VectorType_Dimension \<and> FaurePermutationTableSize T \<le> PrimeTableSize T"
  proof -
    let ?c0 = "\<lparr>m_rng = m_rng c, m_base_dimension = m_base_dimension c + m_dimension c,
                m_base_instance = m_base_instance c + m_instance c, m_dimension = d,
                m_sample_count = n, m_instance = 0, m_offset = u\<rparr>"
    from that have "m_dimension ?c0 \<le> 4" and "FaurePermutationTableSize T \<le> PrimeTableSize T"
      by (simp_all add: VectorType_Dimension_def)
    from compute_offset_loop_succeeds [OF this, of 0 "m_base_dimension ?c0" rs] that
    show ?thesis
      by (simp add: split_def QMCSamplingContext_child_def compute_offset_def)
  qed
  ultimately show ?thesis by (simp add: split_in_place_eq_split)
qed

theorem split_in_place_checks_sequence_witness:
  "0 < m_sample_count mid_sequence \<and> m_instance mid_sequence < m_sample_count mid_sequence \<and>
   split_in_place demo_tables mid_sequence 3 16 fresh_generators = Inl AssertionFailed \<and>
   (3::size_t) \<le> VectorType_Dimension \<and>
   FaurePermutationTableSize demo_tables \<le> PrimeTableSize demo_tables \<and>
   split demo_tables mid_sequence 3 16 (vfill 0) fresh_generators = Inr (demo_child, fresh_generators)"
  using split_in_place_checks_sequence [where c = mid_sequence and T = demo_tables and d = 3
      and n = 16 and rs = fresh_generators and u = "vfill 0"] split_mid_sequence_demo
  by (simp add: mid_sequence_def VectorType_Dimension_def demo_tables_def halton_tables_def)

theorem split_mid_sequence_counterexample:
  "0 < m_sample_count mid_sequence \<and> m_instance mid_sequence < m_sample_count mid_sequence \<and>
   split demo_tables mid_sequence 3 16 (vfill 0) fresh_generators = Inr (demo_child, fresh_generators)"
  using split_mid_sequence_demo by (simp add: mid_sequence_def)

section \<open>Seeking\<close>

text \<open>
  Claim C10. \<open>set_instance(k)\<close> always succeeds and sets \<open>instance\<close> to \<open>k\<close>. It
  leaves the generator binding, \<open>base_dimension\<close>, \<open>base_instance\<close>, \<open>dimension\<close>,
  \<open>sample_count\<close> and the offset as they were, and no generator changes state. Nothing
  is checked against \<open>sample_count\<close>: afterwards \<open>instance\<close> exceeds \<open>sample_count\<close>
  exactly when \<open>k\<close> does.
\<close>

theorem set_instance_frame:
  "m_instance (set_instance c k) = k \<and>
   m_rng (set_instance c k) = m_rng c \<and>
   m_base_dimension (set_instance c k) = m_base_dimension c \<and>
   m_base_instance (set_instance c k) = m_base_instance c \<and>
   m_dimension (set_instance c k) = m_dimension c \<and>
   m_sample_count (set_instance c k) = m_sample_count c \<and>
   m_offset (set_instance c k) = m_offset c \<and>
   rngs (set_instance_at a k w) = rngs w \<and>
   objs (set_instance_at a k w) = (objs w)(a := (objs w a)\<lparr>m_instance := k\<rparr>) \<and>
   (m_sample_count (set_instance c k) < m_instance (set_instance c k)) = (m_sample_count c < k)"
  by (simp add: set_instance_def set_instance_at_def)

section \<open>Assignment\<close>

text \<open>
  Claim C8. Assignment independence: after \<open>b = a\<close>, for two distinct objects, a
  subsequent \<open>a.split_in_place(d, n)\<close> leaves \<open>b\<close> with the base dimension, base
  instance, dimension, sample count, instance and offset that \<open>a\<close> had when it was
  assigned. Neither the assignment nor the split rebinds a generator reference: each
  context stays bound to the generator it was bound to.
\<close>

theorem assignment_independence:
  assumes "a \<noteq> b" and "split_in_place_at T a d n (assign_at b a w) = Inr w'"
  shows "objs w' b = assign (objs w b) (objs w a) \<and>
         m_base_dimension (objs w' b) = m_base_dimension (objs w a) \<and>
         m_base_instance (objs w' b) = m_base_instance (objs w a) \<and>
         m_dimension (objs w' b) = m_dimension (objs w a) \<and>
         m_sample_count (objs w' b) = m_sample_count (objs w a) \<and>
         m_instance (objs w' b) = m_instance (objs w a) \<and>
         m_offset (objs w' b) = m_offset (objs w a) \<and>
         m_rng (objs w' b) = m_rng (objs w b) \<and>
         m_rng (objs w' a) = m_rng (objs w a)"
proof -
  let ?w1 = "assign_at b a w"
  from assms(2) obtain c rs where
    s: "split_in_place T (objs ?w1 a) d n (rngs ?w1) = Inr (c, rs)"
    and w': "w' = ?w1\<lparr>objs := (objs ?w1)(a := c), rngs := rs\<rparr>"
    by (auto simp: split_in_place_at_def split: sum.splits)
  from assms(1) have a: "objs ?w1 a = objs w a" and b: "objs ?w1 b = assign (objs w b) (objs w a)"
    by (simp_all add: assign_at_def)
  from w' assms(1) have "objs w' b = assign (objs w b) (objs w a)"
    by (simp add: b)
  moreover from w' have "objs w' a = c" by simp
  moreover from s have "m_rng c = m_rng (objs w a)"
    unfolding a by (rule split_in_place_fields)
  ultimately show ?thesis by (simp add: assign_def)
qed

theorem assignment_independence_witness:
  "(1::addr) \<noteq> 2 \<and>
   split_in_place_at demo_tables 1 2 1 (assign_at 2 1 demo_world) = Inr demo_world_split \<and>
   objs demo_world_split 2 = assign mid_sequence exhausted \<and>
   m_offset (objs demo_world_split 2) = Vector4 (1 / 2) (1 / 4) 0 0 \<and>
   m_base_dimension (objs demo_world_split 2) = 4 \<and>
   m_base_dimension (objs demo_world_split 1) = 6"
proof -
  have ne: "(1::addr) \<noteq> 2" by simp
  from assignment_independence [OF ne split_in_place_at_demo] split_in_place_at_demo
  show ?thesis
    by (simp add: demo_world_def exhausted_def demo_world_split_def exhausted_split_def assign_at_def assign_def)
qed

section \<open>Frame of generation\<close>

text \<open>
  Claim C7. A call of \<open>next_vector2\<close> that returns has advanced \<open>instance\<close> of its
  receiver by exactly one, whatever the number of dimensions, and has changed nothing
  else: the other members of the receiver, every other object and every generator are as
  before. Randomness is consumed by \<open>compute_offset\<close> only, which constructors and
  splits call: it advances the generator the context is bound to once for each padded
  dimension, that is at most once per dimension, and touches no other generator.
\<close>

theorem generation_frame:
  "(next_vector2_at T a n w = Inr (v, w') \<longrightarrow>
      rngs w' = rngs w \<and>
      objs w' = (objs w)(a := (objs w a)\<lparr>m_instance := m_instance (objs w a) + 1\<rparr>)) \<and>
   (compute_offset T c rs = Inr (c', rs') \<longrightarrow>
      rs' = rs(m_rng c :=
                ((\<lambda>r. snd (rand_double2 T r)) ^^ padded_count T (m_base_dimension c) (unat (m_dimension c)))
                  (rs (m_rng c))) \<and>
      padded_count T (m_base_dimension c) (unat (m_dimension c)) \<le> unat (m_dimension c))"
proof (intro conjI impI)
  assume h: "next_vector2_at T a n w = Inr (v, w')"
  then obtain c where n: "next_vector2 T (objs w a) n = Inr (v, c)"
    and w': "w' = w\<lparr>objs := (objs w)(a := c)\<rparr>"
    by (auto simp: next_vector2_at_def split: sum.splits)
  from n have "c = (objs w a)\<lparr>m_instance := m_instance (objs w a) + 1\<rparr>"
    by (auto simp: next_vector2_def split: if_splits sum.splits)
  with w' show "rngs w' = rngs w"
    and "objs w' = (objs w)(a := (objs w a)\<lparr>m_instance := m_instance (objs w a) + 1\<rparr>)"
    by simp_all
next
  assume "compute_offset T c rs = Inr (c', rs')"
  then have "compute_offset_loop T 0 (m_base_dimension c) c rs = Inr (c', rs')"
    by (simp add: compute_offset_def)
  from compute_offset_loop_rng [OF this] show "rs' = rs(m_rng c :=
                ((\<lambda>r. snd (rand_double2 T r)) ^^ padded_count T (m_base_dimension c) (unat (m_dimension c)))
                  (rs (m_rng c)))"
    by simp
next
  show "padded_count T (m_base_dimension c) (unat (m_dimension c)) \<le> unat (m_dimension c)"
    by (rule padded_count_le)
qed

theorem generation_frame_witness:
  "next_vector2_at demo_tables 2 2 demo_world = Inr ([7 / 8, 5 / 9], demo_world_drawn) \<and>
   rngs demo_world_drawn = rngs demo_world \<and>
   m_instance (objs demo_world_drawn 2) = 8 \<and>
   compute_offset demo_tables demo_grandchild fresh_generators
     = Inr (demo_grandchild, fresh_generators(0 := 1)) \<and>
   padded_count demo_tables 5 (Suc (Suc 0)) = 1"
  using generation_frame [where T = demo_tables and a = 2 and n = 2 and w = demo_world
      and v = "[7 / 8, 5 / 9]" and w' = demo_world_drawn and c = demo_grandchild
      and rs = fresh_generators and c' = demo_grandchild and rs' = "fresh_generators(0 := 1)"]
    next_vector2_at_demo compute_offset_demo
  by (simp add: demo_world_def mid_sequence_def demo_tables_def halton_tables_def)

section \<open>Properties of the generation loops\<close>

text \<open>One step of each loop of \<open>next_vector2\<close>, the result of \<open>rotate\<close>, and the
  values the loops write: component \<open>j\<close> is the rotated value of local dimension \<open>j\<close>.\<close>

lemma next_vector2_precomputed_stop:
  "\<not> i < n \<Longrightarrow> next_vector2_precomputed T c n i v = Inr v"
  by (simp add: next_vector2_precomputed.simps)

lemma next_vector2_precomputed_step:
  "i < n \<Longrightarrow> vget (m_offset c) i = Some off \<Longrightarrow>
   rotate T (PrecomputedHaltonSequence T (m_instance c * 4 + i)) off = Inr x \<Longrightarrow>
   next_vector2_precomputed T c n i v = next_vector2_precomputed T c n (i + 1) (v @ [x])"
  by (subst next_vector2_precomputed.simps) simp

lemma next_vector2_computed_stop:
  "\<not> i < n \<Longrightarrow> next_vector2_computed T c n i v = Inr v"
  by (simp add: next_vector2_computed.simps)

lemma next_vector2_computed_step:
  "i < n \<Longrightarrow> vget (m_offset c) i = Some off \<Longrightarrow>
   rotate T (fast_radical_inverse T i (m_instance c)) off = Inr x \<Longrightarrow>
   next_vector2_computed T c n i v = next_vector2_computed T c n (i + 1) (v @ [x])"
  by (subst next_vector2_computed.simps) simp



text \<open>The result of \<open>rotate\<close> with any rounding.\<close>

lemma rotate_Inr:
  "0 \<le> off \<Longrightarrow>
   rotate T x off =
     Inr (if 1 \<le> double_round T (x + off) then double_round T (double_round T (x + off) - 1)
          else double_round T (x + off))"
  by (simp add: rotate_def Let_def)


section \<open>Properties of binary64 rounding\<close>

text \<open>Rounding to the nearest integer is exact on integers and monotone against them.\<close>

lemma round_half_even_int: "round_half_even (of_int n) = n"
  by (simp add: round_half_even_def)

lemma round_half_even_le: "y \<le> of_int N \<Longrightarrow> round_half_even y \<le> N"
proof -
  assume a: "y \<le> of_int N"
  have f: "\<lfloor>y\<rfloor> \<le> N" using a by (simp add: floor_le_iff)
  have "\<lfloor>y\<rfloor> + 1 \<le> N" if "1 / 2 \<le> y - of_int \<lfloor>y\<rfloor>"
  proof (rule ccontr)
    assume "\<not> \<lfloor>y\<rfloor> + 1 \<le> N"
    with f have "\<lfloor>y\<rfloor> = N" by simp
    with that a show False by simp
  qed
  with f show ?thesis
    unfolding round_half_even_def Let_def by (auto simp: not_less)
qed

lemma round_half_even_ge: "of_int N \<le> y \<Longrightarrow> N \<le> round_half_even y"
proof -
  assume "of_int N \<le> y"
  then have "N \<le> \<lfloor>y\<rfloor>" by (simp add: le_floor_iff)
  then show ?thesis
    unfolding round_half_even_def Let_def by auto
qed

text \<open>Rounding inside one binade: between \<open>1 / 2 ^ j\<close> and \<open>2 / 2 ^ j\<close> the numbers
  of binary64 are the multiples of \<open>1 / 2 ^ (j + 52)\<close>.\<close>

lemma pow2_powi_neg: "2 powi (- int j) = (1 / 2 ^ j :: real)"
  by (simp add: power_int_minus field_simps)

lemma binary64_exponent_binade:
  assumes "1 / 2 ^ j \<le> x" and "x < 2 / 2 ^ j" and "j \<le> 1022"
  shows "binary64_exponent x = - int (j + 52)"
proof -
  have pos: "0 < x" using assms(1) by (meson less_le_trans zero_less_divide_1_iff zero_less_numeral zero_less_power)
  have p1: "2 powr real_of_int (- int j) = 1 / 2 ^ j"
    by (simp add: powr_minus powr_realpow field_simps)
  have p2: "2 powr real_of_int (- int j + 1) = 2 / 2 ^ j"
    by (simp add: powr_diff powr_realpow)
  have "\<lfloor>log 2 x\<rfloor> = - int j"
    using assms(1,2) p1 p2 pos by (simp add: floor_log_eq_powr_iff)
  with pos assms(3) show ?thesis
    by (simp add: binary64_exponent_def)
qed

lemma round_binary64_binade:
  assumes "1 / 2 ^ j \<le> x" and "x < 2 / 2 ^ j" and "j \<le> 1022"
  shows "round_binary64 x = of_int (round_half_even (x * 2 ^ (j + 52))) / 2 ^ (j + 52)"
proof -
  have pos: "0 < x" using assms(1) by (meson less_le_trans zero_less_divide_1_iff zero_less_numeral zero_less_power)
  have e: "binary64_exponent x = - int (j + 52)" using assms by (rule binary64_exponent_binade)
  have p: "2 powi (- int (j + 52)) = (1 / 2 ^ (j + 52) :: real)" by (rule pow2_powi_neg)
  from pos show ?thesis
    unfolding round_binary64_def e p by simp
qed

text \<open>A number below 1 is rounded to at most 1; a number of binary64 below 1 is at
  most \<open>1 - 1 / 2 ^ 53\<close>; the rounded sum of two such numbers is below 2; and
  subtracting 1 from a number of binary64 between 1 and 2 is exact.\<close>

lemma round_binary64_below_1:
  assumes "0 \<le> s" and "s < 1"
  shows "0 \<le> round_binary64 s \<and> round_binary64 s \<le> 1"
proof (cases "s = 0")
  case True
  then show ?thesis by (simp add: round_binary64_def)
next
  case False
  with assms have pos: "0 < s" by simp
  let ?e = "binary64_exponent s"
  have "log 2 s < 0" using pos assms(2) by simp
  then have "\<lfloor>log 2 s\<rfloor> \<le> - 1" by (simp add: floor_le_iff)
  then have e: "?e \<le> - 53" using pos by (simp add: binary64_exponent_def)
  define m where "m = nat (- ?e)"
  have em: "?e = - int m" using e by (simp add: m_def)
  have p: "2 powi ?e = (1 / 2 ^ m :: real)" unfolding em by (rule pow2_powi_neg)
  have "s * 2 ^ m \<le> of_int (2 ^ m)" using assms(2) by (simp add: mult_le_cancel_right1)
  then have up: "round_half_even (s * 2 ^ m) \<le> 2 ^ m" by (rule round_half_even_le)
  have "of_int 0 \<le> s * 2 ^ m" using pos by simp
  then have lo: "0 \<le> round_half_even (s * 2 ^ m)" by (rule round_half_even_ge)
  have r: "round_binary64 s = of_int (round_half_even (s * 2 ^ m)) / 2 ^ m"
    using pos unfolding round_binary64_def p by simp
  from up have "(of_int (round_half_even (s * 2 ^ m)) :: real) \<le> of_int (2 ^ m)"
    by (simp only: of_int_le_iff)
  then have "of_int (round_half_even (s * 2 ^ m)) / 2 ^ m \<le> (1::real)"
    by (simp add: divide_le_eq)
  moreover from lo have "(0::real) \<le> of_int (round_half_even (s * 2 ^ m)) / 2 ^ m"
    by simp
  ultimately show ?thesis unfolding r by simp
qed

lemma round_binary64_unit_binade:
  assumes "1 \<le> s" and "s < 2"
  shows "round_binary64 s = of_int (round_half_even (s * 2 ^ 52)) / 2 ^ 52"
  using round_binary64_binade [of 0 s] assms by simp

lemma double_below_1:
  assumes "round_binary64 z = z" and "0 \<le> z" and "z < 1"
  shows "z \<le> 1 - 1 / 2 ^ 53"
proof (cases "z < 1 / 2")
  case True
  then show ?thesis by simp
next
  case False
  then have h: "1 / 2 ^ 1 \<le> z" "z < 2 / 2 ^ 1" using assms(3) by simp_all
  let ?n = "round_half_even (z * 2 ^ (1 + 52))"
  from round_binary64_binade [OF h] assms(1)
  have z: "z = of_int ?n / 2 ^ 53" by simp
  then have "of_int ?n = z * 2 ^ 53" by simp
  also have "\<dots> < 2 ^ 53" using assms(3) by simp
  finally have "(of_int ?n :: real) < of_int (2 ^ 53)" by simp
  then have "?n < 2 ^ 53" by (simp only: of_int_less_iff)
  then have "?n \<le> 2 ^ 53 - 1" by simp
  then have "(of_int ?n :: real) \<le> of_int (2 ^ 53 - 1)" by (simp only: of_int_le_iff)
  then have "of_int ?n / 2 ^ 53 \<le> (2 ^ 53 - 1) / (2 ^ 53 :: real)"
    by (simp add: divide_le_cancel)
  with z show ?thesis by (simp add: field_simps)
qed

lemma round_binary64_sum:
  assumes "round_binary64 x = x" "0 \<le> x" "x < 1" "round_binary64 y = y" "0 \<le> y" "y < 1"
  shows "0 \<le> round_binary64 (x + y) \<and> round_binary64 (x + y) < 2 \<and>
         (1 \<le> round_binary64 (x + y) \<longrightarrow>
            (\<exists>n. round_binary64 (x + y) = of_int n / 2 ^ 52)) \<and>
         (1 \<le> x + y \<longrightarrow> 1 \<le> round_binary64 (x + y))"
proof (cases "x + y < 1")
  case True
  with assms have b: "0 \<le> round_binary64 (x + y) \<and> round_binary64 (x + y) \<le> 1"
    by (intro round_binary64_below_1) simp_all
  have "\<exists>n. round_binary64 (x + y) = of_int n / 2 ^ 52" if "1 \<le> round_binary64 (x + y)"
  proof -
    from that b have "round_binary64 (x + y) = of_int (2 ^ 52) / 2 ^ 52" by simp
    then show ?thesis by blast
  qed
  with b True show ?thesis by auto
next
  case False
  then have l: "1 \<le> x + y" by simp
  from double_below_1 [OF assms(1-3)] double_below_1 [OF assms(4-6)]
  have u: "x + y \<le> 2 - 1 / 2 ^ 52" by simp
  then have lt2: "x + y < 2" by simp
  note r = round_binary64_unit_binade [OF l lt2]
  from u have "(x + y) * 2 ^ 52 \<le> of_int (2 ^ 53 - 1)" by (simp add: field_simps)
  then have "round_half_even ((x + y) * 2 ^ 52) \<le> 2 ^ 53 - 1" by (rule round_half_even_le)
  then have "(of_int (round_half_even ((x + y) * 2 ^ 52)) :: real) \<le> of_int (2 ^ 53 - 1)"
    by (simp only: of_int_le_iff)
  then have "round_binary64 (x + y) \<le> (2 ^ 53 - 1) / 2 ^ 52"
    unfolding r by (simp add: divide_le_cancel)
  then have up: "round_binary64 (x + y) < 2" by simp
  from l have "of_int (2 ^ 52) \<le> (x + y) * 2 ^ 52" by simp
  then have "2 ^ 52 \<le> round_half_even ((x + y) * 2 ^ 52)" by (rule round_half_even_ge)
  then have "(of_int (2 ^ 52) :: real) \<le> of_int (round_half_even ((x + y) * 2 ^ 52))"
    by (simp only: of_int_le_iff)
  then have lo: "1 \<le> round_binary64 (x + y)"
    unfolding r by (simp add: le_divide_eq)
  from r up lo show ?thesis by auto
qed

lemma round_binary64_minus_1:
  assumes "s = of_int n / 2 ^ 52" and "1 \<le> s" and "s < 2"
  shows "round_binary64 (s - 1) = s - 1"
proof (cases "s = 1")
  case True
  then show ?thesis by (simp add: round_binary64_def)
next
  case False
  define m where "m = n - 2 ^ 52"
  have y: "s - 1 = of_int m / 2 ^ 52" by (simp add: m_def assms(1) field_simps)
  from False assms(2) have ypos: "0 < s - 1" by simp
  with y have "0 < (of_int m :: real)" by (simp add: zero_less_divide_iff)
  then have m1: "1 \<le> m" by simp
  then have ylo: "1 / 2 ^ 52 \<le> s - 1" unfolding y by (simp add: divide_le_cancel)
  have ylt: "s - 1 < 1" using assms(3) by simp
  let ?k = "\<lfloor>log 2 (s - 1)\<rfloor>"
  have "log 2 (s - 1) < 0" using ypos ylt by simp
  then have k1: "?k \<le> - 1" by (simp add: floor_le_iff)
  have "2 powr real_of_int (- 52) = 1 / 2 ^ 52"
    by (simp add: powr_minus powr_realpow [of 2 52, simplified] field_simps)
  with ylo ypos have "real_of_int (- 52) \<le> log 2 (s - 1)" by (simp only: le_log_iff)
  then have k2: "- 52 \<le> ?k" by (simp add: le_floor_iff)
  define j where "j = nat (- ?k)"
  have kj: "?k = - int j" and j1: "1 \<le> j" and j52: "j \<le> 52"
    unfolding j_def using k1 k2 by arith+
  have bin: "2 powr real_of_int ?k \<le> s - 1 \<and> s - 1 < 2 powr real_of_int (?k + 1)"
    using ypos floor_log_eq_powr_iff [of "s - 1" 2 ?k] by simp
  have p1: "2 powr real_of_int (- int j) = 1 / 2 ^ j"
    by (simp add: powr_minus powr_realpow field_simps)
  have p2: "2 powr real_of_int (- int j + 1) = 2 / 2 ^ j"
    by (simp add: powr_diff powr_realpow)
  from bin have h: "1 / 2 ^ j \<le> s - 1" "s - 1 < 2 / 2 ^ j"
    unfolding kj p1 p2 by simp_all
  from j52 have "j \<le> 1022" by simp
  note r = round_binary64_binade [OF h this]
  have "(s - 1) * 2 ^ (j + 52) = of_int (m * 2 ^ j)"
    unfolding y by (simp add: power_add)
  then have "round_half_even ((s - 1) * 2 ^ (j + 52)) = m * 2 ^ j"
    by (simp only: round_half_even_int)
  then have "round_binary64 (s - 1) = of_int (m * 2 ^ j) / 2 ^ (j + 52)"
    unfolding r by simp
  also have "\<dots> = of_int m / 2 ^ 52" by (simp add: power_add)
  finally show ?thesis by (simp only: y)
qed

text \<open>With binary64, \<open>rotate\<close> sends two numbers of the half-open unit interval into
  it: the rounded sum, less 1 when it has reached 1.\<close>

lemma rotate_binary64:
  assumes "double_round T = round_binary64"
    and "is_binary64 x" "0 \<le> x" "x < 1" and "is_binary64 off" "0 \<le> off" "off < 1"
  shows "rotate T x off =
           Inr (if 1 \<le> round_binary64 (x + off) then round_binary64 (x + off) - 1
                else round_binary64 (x + off)) \<and>
         0 \<le> (if 1 \<le> round_binary64 (x + off) then round_binary64 (x + off) - 1
                else round_binary64 (x + off)) \<and>
         (if 1 \<le> round_binary64 (x + off) then round_binary64 (x + off) - 1
          else round_binary64 (x + off)) < 1 \<and>
         (1 \<le> x + off \<longrightarrow> 1 \<le> round_binary64 (x + off))"
proof -
  let ?s = "round_binary64 (x + off)"
  from assms have s: "0 \<le> ?s \<and> ?s < 2 \<and> (1 \<le> ?s \<longrightarrow> (\<exists>n. ?s = of_int n / 2 ^ 52)) \<and>
      (1 \<le> x + off \<longrightarrow> 1 \<le> ?s)"
    by (intro round_binary64_sum) (simp_all add: is_binary64_def)
  have exact: "round_binary64 (?s - 1) = ?s - 1" if "1 \<le> ?s"
  proof -
    from s that obtain n where "?s = of_int n / 2 ^ 52" by blast
    from round_binary64_minus_1 [OF this that] s show ?thesis by simp
  qed
  from assms(6) have "rotate T x off =
      Inr (if 1 \<le> ?s then round_binary64 (?s - 1) else ?s)"
    by (simp add: rotate_Inr assms(1))
  with exact s show ?thesis by auto
qed

section \<open>Values written by the generation loops\<close>

text \<open>Component \<open>j\<close> of the result is the rotated value of local dimension \<open>j\<close>, and
  the loops return whenever the offsets they read are not negative.\<close>

lemma unat_succ: "i < (n::size_t) \<Longrightarrow> unat (i + 1) = Suc (unat i)"
  by unat_arith

lemma rotated_snoc:
  assumes "length v = unat i" and "\<forall>j<length v. rotated T c j (v ! j)" and "rotated T c (unat i) x"
  shows "\<forall>j<length (v @ [x]). rotated T c j ((v @ [x]) ! j)"
  using assms by (auto simp: nth_append less_Suc_eq)

lemma next_vector2_precomputed_rotated:
  "next_vector2_precomputed T c n i v = Inr v' \<Longrightarrow>
   m_instance c < PrecomputedHaltonSequenceSize T \<Longrightarrow> i \<le> n \<Longrightarrow>
   length v = unat i \<Longrightarrow> \<forall>j<length v. rotated T c j (v ! j) \<Longrightarrow>
   length v' = unat n \<and> (\<forall>j<length v'. rotated T c j (v' ! j))"
proof (induction T c n i v rule: next_vector2_precomputed.induct)
  case (1 T c n i v)
  show ?case
  proof (cases "i < n")
    case False
    with "1.prems" have "v' = v" "i = n" by (simp_all add: next_vector2_precomputed_stop)
    with "1.prems" show ?thesis by simp
  next
    case True
    with "1.prems"(1) obtain off x where o: "vget (m_offset c) i = Some off"
      and r: "rotate T (PrecomputedHaltonSequence T (m_instance c * 4 + i)) off = Inr x"
      and l: "next_vector2_precomputed T c n (i + 1) (v @ [x]) = Inr v'"
      by (subst (asm) next_vector2_precomputed.simps) (auto split: option.splits sum.splits)
    from o r "1.prems"(2) have "rotated T c (unat i) x"
      by (auto simp: rotated_def base_value_def)
    with "1.prems" have inv: "\<forall>j<length (v @ [x]). rotated T c j ((v @ [x]) ! j)"
      by (intro rotated_snoc) simp_all
    from True have le: "i + 1 \<le> n" by (rule inc_le)
    from True "1.prems" have len: "length (v @ [x]) = unat (i + 1)"
      by (simp add: unat_succ)
    from "1.IH" [OF True o r l "1.prems"(2) le len inv] show ?thesis .
  qed
qed

lemma next_vector2_computed_rotated:
  "next_vector2_computed T c n i v = Inr v' \<Longrightarrow>
   \<not> m_instance c < PrecomputedHaltonSequenceSize T \<Longrightarrow> 1 \<le> i \<Longrightarrow>
   length v = unat i \<Longrightarrow> \<forall>j<length v. rotated T c j (v ! j) \<Longrightarrow>
   length v' = max (unat n) (unat i) \<and> (\<forall>j<length v'. rotated T c j (v' ! j))"
proof (induction T c n i v rule: next_vector2_computed.induct)
  case (1 T c n i v)
  show ?case
  proof (cases "i < n")
    case False
    with "1.prems" have "v' = v" by (simp add: next_vector2_computed_stop)
    moreover from False have "unat n \<le> unat i" by unat_arith
    ultimately show ?thesis using "1.prems" by (simp add: max_def)
  next
    case True
    with "1.prems"(1) obtain off x where o: "vget (m_offset c) i = Some off"
      and r: "rotate T (fast_radical_inverse T i (m_instance c)) off = Inr x"
      and l: "next_vector2_computed T c n (i + 1) (v @ [x]) = Inr v'"
      by (subst (asm) next_vector2_computed.simps) (auto split: option.splits sum.splits)
    from "1.prems"(3) have "i \<noteq> 0" by auto
    with o r "1.prems"(2) have "rotated T c (unat i) x"
      by (auto simp: rotated_def base_value_def)
    with "1.prems" have inv: "\<forall>j<length (v @ [x]). rotated T c j ((v @ [x]) ! j)"
      by (intro rotated_snoc) simp_all
    from True "1.prems"(3) have le: "1 \<le> i + 1" by unat_arith
    from True "1.prems" have len: "length (v @ [x]) = unat (i + 1)"
      by (simp add: unat_succ)
    from True have "max (unat n) (unat (i + 1)) = max (unat n) (unat i)" by unat_arith
    with "1.IH" [OF True o r l "1.prems"(2) le len inv] show ?thesis by simp
  qed
qed

lemma next_vector2_rotated:
  assumes "next_vector2 T c n = Inr (v, c')"
  shows "length v = (if m_instance c < PrecomputedHaltonSequenceSize T \<or> 0 < n then unat n else 1) \<and>
         (\<forall>j<length v. rotated T c j (v ! j))"
proof (cases "m_instance c < PrecomputedHaltonSequenceSize T")
  case True
  with assms have "next_vector2_precomputed T c n 0 [] = Inr v"
    by (auto simp: next_vector2_def split: if_splits sum.splits)
  from next_vector2_precomputed_rotated [OF this True] True show ?thesis by simp
next
  case False
  with assms obtain off x where o: "vget (m_offset c) 0 = Some off"
    and r: "rotate T (radical_inverse_base2 T (m_instance c)) off = Inr x"
    and l: "next_vector2_computed T c n 1 [x] = Inr v"
    by (auto simp: next_vector2_def split: if_splits sum.splits option.splits)
  from o r False have "rotated T c 0 x"
    by (auto simp: rotated_def base_value_def)
  with next_vector2_computed_rotated [OF l False] have
    "length v = max (unat n) 1 \<and> (\<forall>j<length v. rotated T c j (v ! j))"
    by simp
  moreover have "max (unat n) 1 = (if 0 < n then unat n else 1)" by unat_arith
  ultimately show ?thesis using False by simp
qed

lemma next_vector2_precomputed_succeeds:
  "\<forall>i<n. \<exists>off. vget (m_offset c) i = Some off \<and> 0 \<le> off \<Longrightarrow>
   \<exists>v'. next_vector2_precomputed T c n i v = Inr v'"
proof (induction T c n i v rule: next_vector2_precomputed.induct)
  case (1 T c n i v)
  show ?case
  proof (cases "i < n")
    case False
    then show ?thesis by (simp add: next_vector2_precomputed_stop)
  next
    case True
    with "1.prems" obtain off where o: "vget (m_offset c) i = Some off" and p: "0 \<le> off"
      by blast
    from rotate_Inr [OF p] obtain y where
      r: "rotate T (PrecomputedHaltonSequence T (m_instance c * 4 + i)) off = Inr y" by blast
    from "1.IH" [OF True o r "1.prems"] show ?thesis
      by (simp only: next_vector2_precomputed_step [OF True o r])
  qed
qed

lemma next_vector2_computed_succeeds:
  "\<forall>i<n. \<exists>off. vget (m_offset c) i = Some off \<and> 0 \<le> off \<Longrightarrow>
   \<exists>v'. next_vector2_computed T c n i v = Inr v'"
proof (induction T c n i v rule: next_vector2_computed.induct)
  case (1 T c n i v)
  show ?case
  proof (cases "i < n")
    case False
    then show ?thesis by (simp add: next_vector2_computed_stop)
  next
    case True
    with "1.prems" obtain off where o: "vget (m_offset c) i = Some off" and p: "0 \<le> off"
      by blast
    from rotate_Inr [OF p] obtain y where
      r: "rotate T (fast_radical_inverse T i (m_instance c)) off = Inr y" by blast
    from "1.IH" [OF True o r "1.prems"] show ?thesis
      by (simp only: next_vector2_computed_step [OF True o r])
  qed
qed

lemma next_vector2_succeeds:
  assumes "m_sample_count c = 0 \<or> m_instance c < m_sample_count c" and "n = m_dimension c"
    and "n \<le> PrimeTableSize T"
    and off: "\<forall>i. reads T c n i \<longrightarrow> (\<exists>off. vget (m_offset c) i = Some off \<and> 0 \<le> off)"
  shows "\<exists>v. next_vector2 T c n = Inr (v, c\<lparr>m_instance := m_instance c + 1\<rparr>)"
proof -
  from off have below: "\<forall>i<n. \<exists>off. vget (m_offset c) i = Some off \<and> 0 \<le> off"
    by (simp add: reads_def)
  show ?thesis
  proof (cases "m_instance c < PrecomputedHaltonSequenceSize T")
    case True
    from next_vector2_precomputed_succeeds [OF below] obtain v where
      "next_vector2_precomputed T c n 0 [] = Inr v" by blast
    with True assms show ?thesis by (simp add: next_vector2_def)
  next
    case False
    with off obtain o0 where o: "vget (m_offset c) 0 = Some o0" and p: "0 \<le> o0"
      by (auto simp: reads_def)
    from rotate_Inr [OF p] obtain y where
      r: "rotate T (radical_inverse_base2 T (m_instance c)) o0 = Inr y" by blast
    from next_vector2_computed_succeeds [OF below] obtain v where
      "next_vector2_computed T c n 1 [y] = Inr v" by blast
    with False assms o r show ?thesis by (simp add: next_vector2_def)
  qed
qed

text \<open>The radical inverse of the specification lies in the half-open unit interval.\<close>

lemma permuted_radical_inverse_spec_range:
  "\<forall>k. p k = k \<Longrightarrow>
   0 \<le> permuted_radical_inverse_spec b p n \<and> permuted_radical_inverse_spec b p n < 1"
proof (induction b p n rule: permuted_radical_inverse_spec.induct)
  case (1 b p n)
  show ?case
  proof (cases "b < 2 \<or> n = 0")
    case True
    then show ?thesis by (subst (1 2) permuted_radical_inverse_spec.simps) simp
  next
    case False
    let ?r = "permuted_radical_inverse_spec b p (n div b)"
    from "1.IH" [OF False "1.prems"] have r: "0 \<le> ?r" "?r < 1" by simp_all
    from False have b: "0 < b" by simp
    then have "n mod b < b" by simp
    then have "real (n mod b) + 1 \<le> real b" by linarith
    with r have "real (n mod b) + ?r < real b" by linarith
    with b have "(real (n mod b) + ?r) / real b < 1" by simp
    moreover from r b have "0 \<le> (real (n mod b) + ?r) / real b" by simp
    ultimately show ?thesis
      using False "1.prems" by (subst (1 2) permuted_radical_inverse_spec.simps) simp
  qed
qed

lemma radical_inverse_spec_range:
  "0 \<le> radical_inverse_spec b n \<and> radical_inverse_spec b n < 1"
  unfolding radical_inverse_spec_def by (rule permuted_radical_inverse_spec_range) simp

text \<open>Concrete values of binary64, and the provider and context of the binary64 run.\<close>

lemma round_binary64_third:
  "round_binary64 (1 / 3) = 6004799503160661 / 18014398509481984"
  using round_binary64_binade [of 2 "1 / 3"] by (simp add: round_half_even_def)

lemma binary64_values:
  "is_binary64 0" "is_binary64 (1 / 2)" "is_binary64 (3 / 4)"
  "is_binary64 (9007199254740991 / 18014398509481984)"
  "is_binary64 (6004799503160661 / 18014398509481984)"
proof -
  show "is_binary64 0" by (simp add: is_binary64_def round_binary64_def)
  show "is_binary64 (1 / 2)"
    using round_binary64_binade [of 1 "1 / 2"] by (simp add: is_binary64_def round_half_even_def)
  show "is_binary64 (3 / 4)"
    using round_binary64_binade [of 1 "3 / 4"] by (simp add: is_binary64_def round_half_even_def)
  show "is_binary64 (9007199254740991 / 18014398509481984)"
    using round_binary64_binade [of 2 "9007199254740991 / 18014398509481984"]
    by (simp add: is_binary64_def round_half_even_def)
  show "is_binary64 (6004799503160661 / 18014398509481984)"
    using round_binary64_binade [of 2 "6004799503160661 / 18014398509481984"]
    by (simp add: is_binary64_def round_half_even_def)
qed

lemma round_binary64_sums:
  "round_binary64 (1 / 2 + 9007199254740991 / 18014398509481984) = 1"
  "round_binary64 (6004799503160661 / 18014398509481984 + 3 / 4)
     = 4878899596318037 / 4503599627370496"
proof -
  show "round_binary64 (1 / 2 + 9007199254740991 / 18014398509481984) = 1"
    using round_binary64_binade [of 1 "1 / 2 + 9007199254740991 / 18014398509481984"]
    by (simp add: round_half_even_def)
  show "round_binary64 (6004799503160661 / 18014398509481984 + 3 / 4)
     = 4878899596318037 / 4503599627370496"
    using round_binary64_binade [of 0 "6004799503160661 / 18014398509481984 + 3 / 4"]
    by (simp add: round_half_even_def)
qed

lemma binary64_tables_fields:
  "double_round binary64_tables = round_binary64"
  "PrimeTableSize binary64_tables = 8"
  "PrecomputedHaltonSequenceSize binary64_tables = 1"
  "PrecomputedHaltonSequence binary64_tables 0 = 0"
  "radical_inverse_base2 binary64_tables 1 = 1 / 2"
  "fast_radical_inverse binary64_tables 1 1 = 6004799503160661 / 18014398509481984"
  by (simp_all add: binary64_tables_def demo_tables_def halton_tables_def radical_inverse_spec_def
      permuted_radical_inverse_spec.simps round_binary64_third)

lemma base_value_wrapping:
  "base_value binary64_tables wrapping 0 = 1 / 2"
  "base_value binary64_tables wrapping 1 = 6004799503160661 / 18014398509481984"
  by (simp_all add: base_value_def wrapping_def binary64_tables_fields)

section \<open>Range of the samples\<close>

text \<open>
  Claim C4. Range: with the arithmetic of binary64, a valid call of \<open>next_vector2\<close>
  (sequence not exhausted, \<open>n\<close> equal to the dimension and within the prime table)
  whose base values and stored offsets, for every component the call reads, are numbers
  of binary64 in the half-open unit interval, returns and advances the instance. It
  emits \<open>n\<close> components (one, past the cache, when \<open>n\<close> is 0). Component \<open>j\<close> is the
  rounded sum of base value and offset of local dimension \<open>j\<close>, less 1 when that
  rounded sum reaches or exceeds 1, which it does whenever the exact sum reaches or
  exceeds 1; the component lies in the half-open unit interval and is never 1. On a
  context of dimension 1, \<open>next_double2\<close> returns component 0 of that vector. Offset
  components that the call does not read may hold anything.
\<close>

theorem samples_in_unit_interval:
  assumes arith: "double_round T = round_binary64"
    and valid: "m_sample_count c = 0 \<or> m_instance c < m_sample_count c" "n = m_dimension c"
      "n \<le> PrimeTableSize T"
    and base: "\<forall>i. reads T c n i \<longrightarrow>
      is_binary64 (base_value T c i) \<and> 0 \<le> base_value T c i \<and> base_value T c i < 1"
    and off: "\<forall>i. reads T c n i \<longrightarrow>
      (\<exists>off. vget (m_offset c) i = Some off \<and> is_binary64 off \<and> 0 \<le> off \<and> off < 1)"
  shows "\<exists>v. next_vector2 T c n = Inr (v, c\<lparr>m_instance := m_instance c + 1\<rparr>) \<and>
           length v = (if m_instance c < PrecomputedHaltonSequenceSize T \<or> 0 < n then unat n else 1) \<and>
           (\<forall>j<length v. \<exists>off. vget (m_offset c) (of_nat j) = Some off \<and>
              v ! j = (if 1 \<le> round_binary64 (base_value T c (of_nat j) + off)
                       then round_binary64 (base_value T c (of_nat j) + off) - 1
                       else round_binary64 (base_value T c (of_nat j) + off)) \<and>
              (1 \<le> base_value T c (of_nat j) + off \<longrightarrow>
                 v ! j = round_binary64 (base_value T c (of_nat j) + off) - 1) \<and>
              0 \<le> v ! j \<and> v ! j < 1 \<and> v ! j \<noteq> 1) \<and>
           (n = 1 \<longrightarrow> next_double2 T c = Inr (v ! 0, c\<lparr>m_instance := m_instance c + 1\<rparr>))"
proof -
  from off have off0: "\<forall>i. reads T c n i \<longrightarrow> (\<exists>off. vget (m_offset c) i = Some off \<and> 0 \<le> off)"
    by blast
  from next_vector2_succeeds [OF valid off0] obtain v where
    nv: "next_vector2 T c n = Inr (v, c\<lparr>m_instance := m_instance c + 1\<rparr>)" by blast
  from next_vector2_rotated [OF nv] have
    len: "length v = (if m_instance c < PrecomputedHaltonSequenceSize T \<or> 0 < n then unat n else 1)"
    and rot: "\<forall>j<length v. rotated T c j (v ! j)" by simp_all
  have comp: "\<exists>off. vget (m_offset c) (of_nat j) = Some off \<and>
              v ! j = (if 1 \<le> round_binary64 (base_value T c (of_nat j) + off)
                       then round_binary64 (base_value T c (of_nat j) + off) - 1
                       else round_binary64 (base_value T c (of_nat j) + off)) \<and>
              (1 \<le> base_value T c (of_nat j) + off \<longrightarrow>
                 v ! j = round_binary64 (base_value T c (of_nat j) + off) - 1) \<and>
              0 \<le> v ! j \<and> v ! j < 1 \<and> v ! j \<noteq> 1" if j: "j < length v" for j
  proof -
    have rd: "reads T c n (of_nat j)"
    proof (cases "m_instance c < PrecomputedHaltonSequenceSize T \<or> 0 < n")
      case True
      with len j have "j < unat n" by simp
      then show ?thesis by (simp add: reads_def word_of_nat_below)
    next
      case False
      with len j have "j = 0" by simp
      with False show ?thesis by (simp add: reads_def)
    qed
    from rot j obtain o1 where o1: "vget (m_offset c) (of_nat j) = Some o1"
      and r: "rotate T (base_value T c (of_nat j)) o1 = Inr (v ! j)"
      by (auto simp: rotated_def split: option.splits)
    from off rd o1 have o: "is_binary64 o1" "0 \<le> o1" "o1 < 1" by auto
    from base rd have b: "is_binary64 (base_value T c (of_nat j))"
      "0 \<le> base_value T c (of_nat j)" "base_value T c (of_nat j) < 1" by auto
    from rotate_binary64 [OF arith b o] r o1 show ?thesis by auto
  qed
  have dbl: "next_double2 T c = Inr (v ! 0, c\<lparr>m_instance := m_instance c + 1\<rparr>)" if "n = 1"
  proof -
    from len that have "length v = 1" by simp
    then obtain x where v: "v = [x]" by (cases v) auto
    with nv that show ?thesis
      by (simp add: next_double2_def next_vector2_N_def)
  qed
  from nv len comp dbl show ?thesis by blast
qed

theorem samples_in_unit_interval_witness:
  "next_vector2 binary64_tables wrapping 2
     = Inr ([0, 375299968947541 / 4503599627370496], wrapping\<lparr>m_instance := 2\<rparr>) \<and>
   next_double2 binary64_tables root1 = Inr (0, root1\<lparr>m_instance := 1\<rparr>)"
proof -
  have r2: "reads binary64_tables wrapping 2 i \<longleftrightarrow> i = 0 \<or> i = 1" for i
    by (auto simp: reads_def dest: word_lt2_cases)
  have v2: "m_sample_count wrapping = 0 \<or> m_instance wrapping < m_sample_count wrapping"
    "2 = m_dimension wrapping" "2 \<le> PrimeTableSize binary64_tables"
    by (simp_all add: wrapping_def binary64_tables_fields)
  have b2: "\<forall>i. reads binary64_tables wrapping 2 i \<longrightarrow>
      is_binary64 (base_value binary64_tables wrapping i) \<and>
      0 \<le> base_value binary64_tables wrapping i \<and> base_value binary64_tables wrapping i < 1"
    unfolding r2 by (auto simp: base_value_wrapping binary64_values)
  have m2: "m_offset wrapping = Vector4 (9007199254740991 / 18014398509481984) (3 / 4) (- 7) 9"
    by (simp add: wrapping_def)
  have o2: "\<forall>i. reads binary64_tables wrapping 2 i \<longrightarrow>
      (\<exists>off. vget (m_offset wrapping) i = Some off \<and> is_binary64 off \<and> 0 \<le> off \<and> off < 1)"
  proof (intro allI impI)
    fix i assume "reads binary64_tables wrapping 2 i"
    then have "i = 0 \<or> i = 1" by (simp only: r2)
    then show "\<exists>off. vget (m_offset wrapping) i = Some off \<and> is_binary64 off \<and> 0 \<le> off \<and> off < 1"
    proof
      assume "i = 0"
      then show ?thesis
        by (intro exI [of _ "9007199254740991 / 18014398509481984"]) (simp add: m2 binary64_values)
    next
      assume "i = 1"
      then show ?thesis
        by (intro exI [of _ "3 / 4"]) (simp add: m2 binary64_values)
    qed
  qed
  from samples_in_unit_interval [OF binary64_tables_fields(1) v2 b2 o2] obtain v where
    nv: "next_vector2 binary64_tables wrapping 2
           = Inr (v, wrapping\<lparr>m_instance := m_instance wrapping + 1\<rparr>)"
    and len: "length v = 2"
    and comp: "\<forall>j<length v. \<exists>off. vget (m_offset wrapping) (of_nat j) = Some off \<and>
              v ! j = (if 1 \<le> round_binary64 (base_value binary64_tables wrapping (of_nat j) + off)
                       then round_binary64 (base_value binary64_tables wrapping (of_nat j) + off) - 1
                       else round_binary64 (base_value binary64_tables wrapping (of_nat j) + off)) \<and>
              (1 \<le> base_value binary64_tables wrapping (of_nat j) + off \<longrightarrow>
                 v ! j = round_binary64 (base_value binary64_tables wrapping (of_nat j) + off) - 1) \<and>
              0 \<le> v ! j \<and> v ! j < 1 \<and> v ! j \<noteq> 1"
    by (auto simp: binary64_tables_fields)
  have z: "(of_nat 0 :: size_t) = 0" "(of_nat 1 :: size_t) = 1" by simp_all
  have v0: "v ! 0 = 0"
  proof -
    from comp [rule_format, of 0] len obtain off where
      o: "vget (m_offset wrapping) (of_nat 0) = Some off"
      and e: "v ! 0 = (if 1 \<le> round_binary64 (base_value binary64_tables wrapping (of_nat 0) + off)
                       then round_binary64 (base_value binary64_tables wrapping (of_nat 0) + off) - 1
                       else round_binary64 (base_value binary64_tables wrapping (of_nat 0) + off))"
      by auto
    from o have "off = 9007199254740991 / 18014398509481984" by (simp add: m2)
    with e have "v ! 0 = (if 1 \<le> round_binary64 (1 / 2 + 9007199254740991 / 18014398509481984)
                       then round_binary64 (1 / 2 + 9007199254740991 / 18014398509481984) - 1
                       else round_binary64 (1 / 2 + 9007199254740991 / 18014398509481984))"
      unfolding z base_value_wrapping by (simp only:)
    then show ?thesis by (simp only: round_binary64_sums) simp
  qed
  have v1: "v ! 1 = 375299968947541 / 4503599627370496"
  proof -
    from comp [rule_format, of 1] len obtain off where
      o: "vget (m_offset wrapping) (of_nat 1) = Some off"
      and e: "v ! 1 = (if 1 \<le> round_binary64 (base_value binary64_tables wrapping (of_nat 1) + off)
                       then round_binary64 (base_value binary64_tables wrapping (of_nat 1) + off) - 1
                       else round_binary64 (base_value binary64_tables wrapping (of_nat 1) + off))"
      by auto
    from o have "off = 3 / 4" by (simp add: m2)
    with e have "v ! 1 = (if 1 \<le> round_binary64 (6004799503160661 / 18014398509481984 + 3 / 4)
                       then round_binary64 (6004799503160661 / 18014398509481984 + 3 / 4) - 1
                       else round_binary64 (6004799503160661 / 18014398509481984 + 3 / 4))"
      unfolding z base_value_wrapping by (simp only:)
    then show ?thesis by (simp only: round_binary64_sums) simp
  qed
  from len obtain a b where "v = [a, b]"
    by (cases v; cases "tl v") auto
  with v0 v1 have v: "v = [0, 375299968947541 / 4503599627370496]" by simp
  have r1: "reads binary64_tables root1 1 i \<longleftrightarrow> i = 0" for i
    by (simp add: reads_def root1_def binary64_tables_fields)
  have v1': "m_sample_count root1 = 0 \<or> m_instance root1 < m_sample_count root1"
    "1 = m_dimension root1" "1 \<le> PrimeTableSize binary64_tables"
    by (simp_all add: root1_def binary64_tables_fields)
  have b1: "\<forall>i. reads binary64_tables root1 1 i \<longrightarrow>
      is_binary64 (base_value binary64_tables root1 i) \<and>
      0 \<le> base_value binary64_tables root1 i \<and> base_value binary64_tables root1 i < 1"
    unfolding r1 by (simp add: base_value_def root1_def binary64_tables_fields binary64_values)
  have o1: "\<forall>i. reads binary64_tables root1 1 i \<longrightarrow>
      (\<exists>off. vget (m_offset root1) i = Some off \<and> is_binary64 off \<and> 0 \<le> off \<and> off < 1)"
    unfolding r1 by (simp add: root1_def vfill_def binary64_values)
  from samples_in_unit_interval [OF binary64_tables_fields(1) v1' b1 o1] obtain w where
    "next_double2 binary64_tables root1 = Inr (w ! 0, root1\<lparr>m_instance := m_instance root1 + 1\<rparr>)"
    and "length w = 1"
    and "\<forall>j<length w. \<exists>off. vget (m_offset root1) (of_nat j) = Some off \<and>
              w ! j = (if 1 \<le> round_binary64 (base_value binary64_tables root1 (of_nat j) + off)
                       then round_binary64 (base_value binary64_tables root1 (of_nat j) + off) - 1
                       else round_binary64 (base_value binary64_tables root1 (of_nat j) + off)) \<and>
              (1 \<le> base_value binary64_tables root1 (of_nat j) + off \<longrightarrow>
                 w ! j = round_binary64 (base_value binary64_tables root1 (of_nat j) + off) - 1) \<and>
              0 \<le> w ! j \<and> w ! j < 1 \<and> w ! j \<noteq> 1"
    by (auto simp: binary64_tables_fields)
  then have "next_double2 binary64_tables root1 = Inr (0, root1\<lparr>m_instance := 1\<rparr>)"
    by (simp add: root1_def vfill_def base_value_def binary64_tables_fields round_binary64_def)
  with nv v show ?thesis by (simp add: wrapping_def)
qed

section \<open>The sequence of dimension 0\<close>

text \<open>A draw of \<open>next_double2\<close> with a zero offset returns the base value itself.\<close>

lemma next_double2_unrotated:
  assumes "m_dimension c = 1" and "vget (m_offset c) 0 = Some 0"
    and "m_sample_count c = 0 \<or> m_instance c < m_sample_count c"
    and "1 \<le> PrimeTableSize T"
    and "x = (if m_instance c < PrecomputedHaltonSequenceSize T
              then PrecomputedHaltonSequence T (m_instance c * 4)
              else radical_inverse_base2 T (m_instance c))"
    and "x < 1" and "double_round T x = x"
  shows "next_double2 T c = Inr (x, c\<lparr>m_instance := m_instance c + 1\<rparr>)"
proof (cases "m_instance c < PrecomputedHaltonSequenceSize T")
  case True
  with assms have r: "rotate T (PrecomputedHaltonSequence T (m_instance c * 4 + 0)) 0 = Inr x"
    by (simp add: rotate_def)
  have "next_vector2_precomputed T c 1 0 [] = Inr [x]"
    using next_vector2_precomputed_step [where i = 0 and n = 1 and v = "[]", OF _ assms(2) r]
    by (simp add: next_vector2_precomputed_stop)
  with True assms show ?thesis
    by (simp add: next_double2_def next_vector2_N_def next_vector2_def)
next
  case False
  with assms have r: "rotate T (radical_inverse_base2 T (m_instance c)) 0 = Inr x"
    by (simp add: rotate_def)
  with False assms show ?thesis
    by (simp add: next_double2_def next_vector2_N_def next_vector2_def next_vector2_computed_stop)
qed

lemma radical_inverse_spec_base2:
  "radical_inverse_spec 2 0 = 0" "radical_inverse_spec 2 (Suc 0) = 1 / 2"
  "radical_inverse_spec 2 2 = 1 / 4" "radical_inverse_spec 2 3 = 3 / 4"
  by (simp_all add: radical_inverse_spec_def permuted_radical_inverse_spec.simps)

lemma halton_tables_dimension0:
  assumes "k = 0 \<or> k = 1 \<or> k = 2 \<or> k = (3::size_t)"
  shows "(if k < PrecomputedHaltonSequenceSize (halton_tables primes F K perms rnd)
          then PrecomputedHaltonSequence (halton_tables primes F K perms rnd) (k * 4)
          else radical_inverse_base2 (halton_tables primes F K perms rnd) k)
         = radical_inverse_spec 2 (unat k)"
  using assms by (auto simp: halton_tables_def)

text \<open>
  Claim C6. Dimension-0 sequence law: on a context of dimension 1 with a zero rotation
  offset in component 0, whatever its base dimension, four successive draws of
  \<open>next_double2\<close> from instance 0 on return 0, 1/2, 1/4 and 3/4, the base-2 van der
  Corput sequence. The sequence provider is the one of the specification, with any
  cache size: instances inside and outside the cache give the same values.
\<close>

theorem dimension0_van_der_corput:
  assumes "T = halton_tables primes F K perms rnd" and "1 \<le> PrimeTableSize T"
    and "m_dimension c = 1" and "vget (m_offset c) 0 = Some 0" and "m_instance c = 0"
    and "m_sample_count c = 0 \<or> 4 \<le> m_sample_count c"
  shows "draw_doubles T 4 c = Inr ([0, 1 / 2, 1 / 4, 3 / 4], c\<lparr>m_instance := 4\<rparr>)"
proof -
  have bound: "m_sample_count c = 0 \<or> k < m_sample_count c" if "k < 4" for k
    using assms(6) that by unat_arith
  have step: "next_double2 T (c\<lparr>m_instance := k\<rparr>)
                = Inr (radical_inverse_spec 2 (unat k), c\<lparr>m_instance := k + 1\<rparr>)"
    if "k = 0 \<or> k = 1 \<or> k = 2 \<or> k = 3" for k
  proof -
    from that have k4: "k < 4" by auto
    from that have lt1: "radical_inverse_spec 2 (unat k) < 1"
      by (auto simp: radical_inverse_spec_base2)
    have "next_double2 T (c\<lparr>m_instance := k\<rparr>)
            = Inr (radical_inverse_spec 2 (unat k),
                   c\<lparr>m_instance := k\<rparr>\<lparr>m_instance := m_instance (c\<lparr>m_instance := k\<rparr>) + 1\<rparr>)"
    proof (rule next_double2_unrotated)
      show "radical_inverse_spec 2 (unat k) =
        (if m_instance (c\<lparr>m_instance := k\<rparr>) < PrecomputedHaltonSequenceSize T
         then PrecomputedHaltonSequence T (m_instance (c\<lparr>m_instance := k\<rparr>) * 4)
         else radical_inverse_base2 T (m_instance (c\<lparr>m_instance := k\<rparr>)))"
        using halton_tables_dimension0 [OF that, of primes F K perms rnd]
        by (simp add: assms(1) split: if_splits)
    qed (use assms bound [OF k4] lt1 in \<open>simp_all add: halton_tables_def\<close>)
    then show ?thesis by simp
  qed
  have c0: "c = c\<lparr>m_instance := 0\<rparr>" using assms(5) by simp
  have n4: "(4::nat) = Suc (Suc (Suc (Suc 0)))" by simp
  have "draw_doubles T (Suc (Suc (Suc (Suc 0)))) (c\<lparr>m_instance := 0\<rparr>)
          = Inr ([0, 1 / 2, 1 / 4, 3 / 4], c\<lparr>m_instance := 4\<rparr>)"
    using step [of 0] step [of 1] step [of 2] step [of 3]
    by (simp add: radical_inverse_spec_base2)
  then show ?thesis
    unfolding n4 using c0 by simp
qed

theorem dimension0_van_der_corput_witness:
  "draw_doubles demo_tables 4 root1 = Inr ([0, 1 / 2, 1 / 4, 3 / 4], root1\<lparr>m_instance := 4\<rparr>)"
  using dimension0_van_der_corput [where T = demo_tables and c = root1, OF demo_tables_def]
  by (simp add: root1_def vfill_def demo_tables_def halton_tables_def)

section \<open>Independence of the random source\<close>

text \<open>No dimension is padded exactly when every global dimension of the context lies
  inside the permutation table.\<close>

lemma padded_count_0_iff:
  "padded_count T d n = 0 \<longleftrightarrow> (\<forall>j<n. d + of_nat j < FaurePermutationTableSize T)"
proof (induction n arbitrary: d)
  case 0
  show ?case by simp
next
  case (Suc n)
  have "(\<forall>j<Suc n. d + of_nat j < FaurePermutationTableSize T) \<longleftrightarrow>
        d < FaurePermutationTableSize T \<and> (\<forall>j<n. d + 1 + of_nat j < FaurePermutationTableSize T)"
    (is "?L \<longleftrightarrow> ?R")
  proof
    assume l: ?L
    from l [rule_format, of 0] have "d < FaurePermutationTableSize T" by simp
    moreover have "d + 1 + of_nat j < FaurePermutationTableSize T" if "j < n" for j
      using l [rule_format, of "Suc j"] that by (simp add: ac_simps)
    ultimately show ?R by simp
  next
    assume r: ?R
    show ?L
    proof (intro allI impI)
      fix j assume "j < Suc n"
      then show "d + of_nat j < FaurePermutationTableSize T"
        using r by (cases j) (simp_all add: ac_simps)
    qed
  qed
  with Suc show ?case by simp
qed

lemma vget_vset:
  "vset a i x = Some a' \<Longrightarrow> vget a' j = (if j = i then Some x else vget a j)"
  by (cases a) (auto split: if_splits)

lemma less_succ_word: "i < (n::size_t) \<Longrightarrow> j < i + 1 \<longleftrightarrow> j < i \<or> j = i"
  by unat_arith

lemma compute_offset_loop_covered_rel:
  "padded_count T d (unat (m_dimension c1) - unat i) = 0 \<Longrightarrow>
   m_dimension c2 = m_dimension c1 \<Longrightarrow> m_base_instance c2 = m_base_instance c1 \<Longrightarrow>
   \<forall>j<i. vget (m_offset c1) j = vget (m_offset c2) j \<Longrightarrow>
   (\<exists>e. compute_offset_loop T i d c1 rs1 = Inl e \<and>
        compute_offset_loop (T\<lparr>rand_double2 := g\<rparr>) i d c2 rs2 = Inl e) \<or>
   (\<exists>c1' c2'. compute_offset_loop T i d c1 rs1 = Inr (c1', rs1) \<and>
        compute_offset_loop (T\<lparr>rand_double2 := g\<rparr>) i d c2 rs2 = Inr (c2', rs2) \<and>
        (\<forall>j<m_dimension c1. vget (m_offset c1') j = vget (m_offset c2') j))"
proof (induction T i d c1 rs1 arbitrary: c2 rule: compute_offset_loop.induct)
  case (1 T i d c1 rs1)
  let ?T2 = "T\<lparr>rand_double2 := g\<rparr>"
  show ?case
  proof (cases "i < m_dimension c1")
    case False
    then have "\<forall>j<m_dimension c1. j < i" by auto
    with False "1.prems" show ?thesis
      by (simp add: compute_offset_loop_stop)
  next
    case True
    then have i2: "i < m_dimension c2" using "1.prems" by simp
    from True have rem: "unat (m_dimension c1) - unat i = Suc (unat (m_dimension c1) - unat (i + 1))"
      by (rule remaining_Suc)
    from "1.prems"(1) have cov: "d < FaurePermutationTableSize T"
      and pc: "padded_count T (d + 1) (unat (m_dimension c1) - unat (i + 1)) = 0"
      unfolding rem by (simp_all split: if_splits)
    have cov2: "d < FaurePermutationTableSize ?T2" using cov by simp
    let ?x = "fast_permuted_radical_inverse T d (FaurePermutations T d) (m_base_instance c1)"
    show ?thesis
    proof (cases "d < PrimeTableSize T \<and> i < 4")
      case False
      then have "compute_offset_loop T i d c1 rs1 = Inl AssertionFailed"
        "compute_offset_loop ?T2 i d c2 rs2 = Inl AssertionFailed"
        using vset_eq_None [of "m_offset c1" i ?x] vset_eq_None [of "m_offset c2" i ?x] "1.prems"
        by (auto simp: compute_offset_loop_covered [OF True cov] compute_offset_loop_covered [OF i2 cov2])
      then show ?thesis by simp
    next
      case ok: True
      then obtain o1 o2 where o1: "vset (m_offset c1) i ?x = Some o1"
        and o2: "vset (m_offset c2) i ?x = Some o2"
        using vset_eq_None [of "m_offset c1" i ?x] vset_eq_None [of "m_offset c2" i ?x] by auto
      have s1: "compute_offset_loop T i d c1 rs1
                  = compute_offset_loop T (i + 1) (d + 1) (c1\<lparr>m_offset := o1\<rparr>) rs1"
        using ok o1 by (simp add: compute_offset_loop_covered [OF True cov])
      have s2: "compute_offset_loop ?T2 i d c2 rs2
                  = compute_offset_loop ?T2 (i + 1) (d + 1) (c2\<lparr>m_offset := o2\<rparr>) rs2"
        using ok o2 "1.prems" by (simp add: compute_offset_loop_covered [OF i2 cov2])
      have ag: "\<forall>j<i + 1. vget (m_offset (c1\<lparr>m_offset := o1\<rparr>)) j = vget (m_offset (c2\<lparr>m_offset := o2\<rparr>)) j"
        using "1.prems"(4) by (simp add: less_succ_word [OF True] vget_vset [OF o1] vget_vset [OF o2])
      from ok have np: "\<not> \<not> d < PrimeTableSize T" by simp
      have "(\<exists>e. compute_offset_loop T (i + 1) (d + 1) (c1\<lparr>m_offset := o1\<rparr>) rs1 = Inl e \<and>
        compute_offset_loop ?T2 (i + 1) (d + 1) (c2\<lparr>m_offset := o2\<rparr>) rs2 = Inl e) \<or>
       (\<exists>c1' c2'. compute_offset_loop T (i + 1) (d + 1) (c1\<lparr>m_offset := o1\<rparr>) rs1 = Inr (c1', rs1) \<and>
        compute_offset_loop ?T2 (i + 1) (d + 1) (c2\<lparr>m_offset := o2\<rparr>) rs2 = Inr (c2', rs2) \<and>
        (\<forall>j<m_dimension (c1\<lparr>m_offset := o1\<rparr>). vget (m_offset c1') j = vget (m_offset c2') j))"
        by (rule "1.IH"(1) [OF True cov np o1]) (use pc "1.prems" ag in simp_all)
      then show ?thesis unfolding s1 s2 by simp
    qed
  qed
qed

text \<open>Contexts that agree on what \<open>next_vector2\<close> reads emit the same samples, with any
  generator function.\<close>

lemma same_samples_iff:
  "same_samples c1 c2 \<longleftrightarrow>
     m_dimension c1 = m_dimension c2 \<and> m_sample_count c1 = m_sample_count c2 \<and>
     m_instance c1 = m_instance c2 \<and> vget (m_offset c1) 0 = vget (m_offset c2) 0 \<and>
     (\<forall>j<m_dimension c1. vget (m_offset c1) j = vget (m_offset c2) j)"
proof -
  have "list_all (\<lambda>j. j < n \<longrightarrow> vget a j = vget b j) [0, 1, 2, 3]
          \<longleftrightarrow> (\<forall>j<n. vget a j = vget b j)" for n a b
  proof
    assume l: "list_all (\<lambda>j. j < n \<longrightarrow> vget a j = vget b j) [0, 1, 2, 3]"
    show "\<forall>j<n. vget a j = vget b j"
    proof (intro allI impI)
      fix j assume jn: "j < n"
      show "vget a j = vget b j"
      proof (cases "j < 4")
        case True
        with l jn word_lt4_cases [OF True] show ?thesis by auto
      next
        case False
        then have "vget a j = None" "vget b j = None" by (simp_all add: vget_eq_None)
        then show ?thesis by simp
      qed
    qed
  next
    assume "\<forall>j<n. vget a j = vget b j"
    then show "list_all (\<lambda>j. j < n \<longrightarrow> vget a j = vget b j) [0, 1, 2, 3]" by simp
  qed
  then show ?thesis by (simp only: same_samples_def)
qed

lemma rotate_generator [simp]: "rotate (T\<lparr>rand_double2 := g\<rparr>) x off = rotate T x off"
  by (simp add: rotate_def Let_def)

lemma next_vector2_precomputed_rel:
  "m_instance c1 = m_instance c2 \<Longrightarrow> \<forall>j<n. vget (m_offset c1) j = vget (m_offset c2) j \<Longrightarrow>
   next_vector2_precomputed T c1 n i v = next_vector2_precomputed (T\<lparr>rand_double2 := g\<rparr>) c2 n i v"
proof (induction T c1 n i v rule: next_vector2_precomputed.induct)
  case (1 T c1 n i v)
  show ?case
  proof (cases "i < n")
    case False
    then show ?thesis by (simp add: next_vector2_precomputed_stop)
  next
    case True
    with "1.prems" have e: "vget (m_offset c1) i = vget (m_offset c2) i" by simp
    show ?thesis
    proof (cases "vget (m_offset c1) i")
      case None
      with e True show ?thesis
        by (subst (1 2) next_vector2_precomputed.simps) simp
    next
      case (Some off)
      show ?thesis
      proof (cases "rotate T (PrecomputedHaltonSequence T (m_instance c1 * 4 + i)) off")
        case (Inl err)
        with Some e True "1.prems"(1) show ?thesis
          by (subst (1 2) next_vector2_precomputed.simps) simp
      next
        case (Inr x)
        from Inr "1.prems"(1) have r2:
          "rotate (T\<lparr>rand_double2 := g\<rparr>)
             (PrecomputedHaltonSequence (T\<lparr>rand_double2 := g\<rparr>) (m_instance c2 * 4 + i)) off = Inr x"
          by simp
        from Some e have o2: "vget (m_offset c2) i = Some off" by simp
        from "1.IH" [OF True Some Inr "1.prems"] show ?thesis
          by (simp only: next_vector2_precomputed_step [OF True Some Inr]
              next_vector2_precomputed_step [OF True o2 r2])
      qed
    qed
  qed
qed

lemma next_vector2_computed_rel:
  "m_instance c1 = m_instance c2 \<Longrightarrow> \<forall>j<n. vget (m_offset c1) j = vget (m_offset c2) j \<Longrightarrow>
   next_vector2_computed T c1 n i v = next_vector2_computed (T\<lparr>rand_double2 := g\<rparr>) c2 n i v"
proof (induction T c1 n i v rule: next_vector2_computed.induct)
  case (1 T c1 n i v)
  show ?case
  proof (cases "i < n")
    case False
    then show ?thesis by (simp add: next_vector2_computed_stop)
  next
    case True
    with "1.prems" have e: "vget (m_offset c1) i = vget (m_offset c2) i" by simp
    show ?thesis
    proof (cases "vget (m_offset c1) i")
      case None
      with e True show ?thesis
        by (subst (1 2) next_vector2_computed.simps) simp
    next
      case (Some off)
      show ?thesis
      proof (cases "rotate T (fast_radical_inverse T i (m_instance c1)) off")
        case (Inl err)
        with Some e True "1.prems"(1) show ?thesis
          by (subst (1 2) next_vector2_computed.simps) simp
      next
        case (Inr x)
        from Inr "1.prems"(1) have r2:
          "rotate (T\<lparr>rand_double2 := g\<rparr>)
             (fast_radical_inverse (T\<lparr>rand_double2 := g\<rparr>) i (m_instance c2)) off = Inr x"
          by simp
        from Some e have o2: "vget (m_offset c2) i = Some off" by simp
        from "1.IH" [OF True Some Inr "1.prems"] show ?thesis
          by (simp only: next_vector2_computed_step [OF True Some Inr]
              next_vector2_computed_step [OF True o2 r2])
      qed
    qed
  qed
qed

lemma next_vector2_rel:
  assumes "same_samples c1 c2"
  shows "(\<exists>e. next_vector2 T c1 n = Inl e \<and> next_vector2 (T\<lparr>rand_double2 := g\<rparr>) c2 n = Inl e) \<or>
         (\<exists>v c1' c2'. next_vector2 T c1 n = Inr (v, c1') \<and>
            next_vector2 (T\<lparr>rand_double2 := g\<rparr>) c2 n = Inr (v, c2') \<and> same_samples c1' c2')"
proof (cases "(m_sample_count c1 = 0 \<or> m_instance c1 < m_sample_count c1) \<and> n = m_dimension c1
               \<and> n \<le> PrimeTableSize T")
  case False
  with assms show ?thesis
    by (auto simp: next_vector2_def same_samples_iff)
next
  case True
  let ?T2 = "T\<lparr>rand_double2 := g\<rparr>"
  from True assms have ag: "\<forall>j<n. vget (m_offset c1) j = vget (m_offset c2) j"
    and inst: "m_instance c1 = m_instance c2" and o0: "vget (m_offset c1) 0 = vget (m_offset c2) 0"
    by (simp_all add: same_samples_iff)
  from True assms have valid2: "(m_sample_count c2 = 0 \<or> m_instance c2 < m_sample_count c2)
      \<and> n = m_dimension c2 \<and> n \<le> PrimeTableSize ?T2"
    by (auto simp: same_samples_iff)
  note p = next_vector2_precomputed_rel [OF inst ag, of T 0 "[]" g]
  note q = next_vector2_computed_rel [OF inst ag, of T 1 _ g]
  let ?B1 = "if m_instance c1 < PrecomputedHaltonSequenceSize T
            then next_vector2_precomputed T c1 n 0 []
            else
              (case vget (m_offset c1) 0 of
                 None \<Rightarrow> Inl AssertionFailed
               | Some off \<Rightarrow>
                   (case rotate T (radical_inverse_base2 T (m_instance c1)) off of
                      Inl e \<Rightarrow> Inl e
                    | Inr x \<Rightarrow> next_vector2_computed T c1 n 1 [x]))"
  let ?B2 = "if m_instance c2 < PrecomputedHaltonSequenceSize ?T2
            then next_vector2_precomputed ?T2 c2 n 0 []
            else
              (case vget (m_offset c2) 0 of
                 None \<Rightarrow> Inl AssertionFailed
               | Some off \<Rightarrow>
                   (case rotate ?T2 (radical_inverse_base2 ?T2 (m_instance c2)) off of
                      Inl e \<Rightarrow> Inl e
                    | Inr x \<Rightarrow> next_vector2_computed ?T2 c2 n 1 [x]))"
  have body: "?B1 = ?B2"
    by (simp add: p q inst o0 split: option.splits sum.splits)
  have n1: "next_vector2 T c1 n =
      (case ?B1 of Inl e \<Rightarrow> Inl e | Inr v \<Rightarrow> Inr (v, c1\<lparr>m_instance := m_instance c1 + 1\<rparr>))"
  proof -
    from True have "m_sample_count c1 = 0 \<or> m_instance c1 < m_sample_count c1"
      "m_dimension c1 = n" "n \<le> PrimeTableSize T" by auto
    then show ?thesis unfolding next_vector2_def by simp
  qed
  have n2: "next_vector2 ?T2 c2 n =
      (case ?B2 of Inl e \<Rightarrow> Inl e | Inr v \<Rightarrow> Inr (v, c2\<lparr>m_instance := m_instance c2 + 1\<rparr>))"
  proof -
    from valid2 have "m_sample_count c2 = 0 \<or> m_instance c2 < m_sample_count c2"
      "m_dimension c2 = n" "n \<le> PrimeTableSize ?T2" by auto
    then show ?thesis unfolding next_vector2_def by simp
  qed
  have succ: "same_samples (c1\<lparr>m_instance := m_instance c1 + 1\<rparr>) (c2\<lparr>m_instance := m_instance c2 + 1\<rparr>)"
    using assms by (simp add: same_samples_iff)
  show ?thesis
  proof (cases ?B1)
    case (Inl e)
    with body have "?B2 = Inl e" by simp
    with Inl show ?thesis unfolding n1 n2 by simp
  next
    case (Inr v)
    with body have "?B2 = Inr v" by simp
    with Inr succ show ?thesis unfolding n1 n2 by simp
  qed
qed

lemma draw_vectors_rel:
  "same_samples c1 c2 \<Longrightarrow>
   (\<exists>e. draw_vectors T n k c1 = Inl e \<and> draw_vectors (T\<lparr>rand_double2 := g\<rparr>) n k c2 = Inl e) \<or>
   (\<exists>vs c1' c2'. draw_vectors T n k c1 = Inr (vs, c1') \<and>
      draw_vectors (T\<lparr>rand_double2 := g\<rparr>) n k c2 = Inr (vs, c2'))"
proof (induction k arbitrary: c1 c2)
  case 0
  show ?case by simp
next
  case (Suc k)
  from next_vector2_rel [OF Suc.prems, of T n g] show ?case
  proof (elim disjE exE conjE)
    fix e assume "next_vector2 T c1 n = Inl e" "next_vector2 (T\<lparr>rand_double2 := g\<rparr>) c2 n = Inl e"
    then show ?thesis by simp
  next
    fix v c1' c2'
    assume n1: "next_vector2 T c1 n = Inr (v, c1')"
      and n2: "next_vector2 (T\<lparr>rand_double2 := g\<rparr>) c2 n = Inr (v, c2')"
      and s: "same_samples c1' c2'"
    from Suc.IH [OF s] n1 n2 show ?thesis by auto
  qed
qed

lemma emitted_demo:
  "emitted demo_tables (Suc (Suc 0))
     (QMCSamplingContext_child demo_tables 0 2 7 3 16 (vfill 0) fresh_generators)
   = Inr [[11 / 25, 1 / 49, 7 / 11], [47 / 50, 52 / 147, 46 / 55]]"
  by (simp add: emitted_def QMCSamplingContext_child_def VectorType_Dimension_def
      compute_offset_def compute_offset_loop.simps next_vector2_def
      next_vector2_precomputed.simps rotate_def vfill_def
      demo_tables_def halton_tables_def radical_inverse_spec_def permuted_radical_inverse_spec.simps)

text \<open>
  Claim C5. Determinism for unpadded dimensions: two contexts built by the private
  constructor with the same base dimension, base instance, dimension and sample count,
  all of whose global dimensions lie inside the permutation table, emit the same
  sequence of sample vectors (or stop with the same error), whatever the generators
  they are bound to, the states of all generators and the generator function. The fresh
  objects may hold different uninitialised offsets; only for a context of dimension 0,
  whose draws read component 0 of an offset that nothing ever writes, must that
  component be the same.
\<close>

theorem determinism_unpadded:
  assumes covered: "\<forall>j<unat dm. bd + of_nat j < FaurePermutationTableSize T"
    and fresh: "0 < dm \<or> vget u1 0 = vget u2 0"
  shows "emitted T k (QMCSamplingContext_child T rng1 bd bi dm n u1 rs1)
         = emitted (T\<lparr>rand_double2 := g\<rparr>) k
             (QMCSamplingContext_child (T\<lparr>rand_double2 := g\<rparr>) rng2 bd bi dm n u2 rs2)"
proof (cases "dm \<le> VectorType_Dimension")
  case False
  then show ?thesis by (simp add: QMCSamplingContext_child_def emitted_def)
next
  case True
  let ?T2 = "T\<lparr>rand_double2 := g\<rparr>"
  let ?c1 = "\<lparr>m_rng = rng1, m_base_dimension = bd, m_base_instance = bi,
              m_dimension = dm, m_sample_count = n, m_instance = 0, m_offset = u1\<rparr>"
  let ?c2 = "\<lparr>m_rng = rng2, m_base_dimension = bd, m_base_instance = bi,
              m_dimension = dm, m_sample_count = n, m_instance = 0, m_offset = u2\<rparr>"
  from covered have pc: "padded_count T bd (unat (m_dimension ?c1) - unat (0::size_t)) = 0"
    by (simp add: padded_count_0_iff)
  have "(\<exists>e. compute_offset_loop T 0 bd ?c1 rs1 = Inl e \<and>
        compute_offset_loop ?T2 0 bd ?c2 rs2 = Inl e) \<or>
   (\<exists>c1' c2'. compute_offset_loop T 0 bd ?c1 rs1 = Inr (c1', rs1) \<and>
        compute_offset_loop ?T2 0 bd ?c2 rs2 = Inr (c2', rs2) \<and>
        (\<forall>j<m_dimension ?c1. vget (m_offset c1') j = vget (m_offset c2') j))"
    by (rule compute_offset_loop_covered_rel [OF pc]) simp_all
  then show ?thesis
  proof (elim disjE exE conjE)
    fix e assume "compute_offset_loop T 0 bd ?c1 rs1 = Inl e"
      "compute_offset_loop ?T2 0 bd ?c2 rs2 = Inl e"
    with True show ?thesis
      by (simp add: QMCSamplingContext_child_def compute_offset_def emitted_def)
  next
    fix c1' c2'
    assume l1: "compute_offset_loop T 0 bd ?c1 rs1 = Inr (c1', rs1)"
      and l2: "compute_offset_loop ?T2 0 bd ?c2 rs2 = Inr (c2', rs2)"
      and ag: "\<forall>j<m_dimension ?c1. vget (m_offset c1') j = vget (m_offset c2') j"
    note f1 = compute_offset_loop_fields [OF l1]
    note f2 = compute_offset_loop_fields [OF l2]
    have d1: "m_dimension c1' = dm" "m_sample_count c1' = n" "m_instance c1' = 0"
      by (subst f1, simp)+
    have d2: "m_dimension c2' = dm" "m_sample_count c2' = n" "m_instance c2' = 0"
      by (subst f2, simp)+
    have z: "vget (m_offset c1') 0 = vget (m_offset c2') 0"
    proof (cases "0 < dm")
      case True
      with ag show ?thesis by simp
    next
      case False
      then have "\<not> 0 < m_dimension ?c1" "\<not> 0 < m_dimension ?c2" by simp_all
      with l1 l2 have "c1' = ?c1" "c2' = ?c2"
        by (simp_all add: compute_offset_loop_stop)
      with fresh False show ?thesis by simp
    qed
    from ag d1 d2 z have s: "same_samples c1' c2'"
      by (simp add: same_samples_iff)
    from draw_vectors_rel [OF s, of T dm k g] l1 l2 True d1 d2 show ?thesis
      by (auto simp: QMCSamplingContext_child_def compute_offset_def emitted_def)
  qed
qed

theorem determinism_unpadded_witness:
  "emitted demo_tables (Suc (Suc 0))
     (QMCSamplingContext_child demo_tables 0 2 7 3 16 (vfill 0) fresh_generators)
   = Inr [[11 / 25, 1 / 49, 7 / 11], [47 / 50, 52 / 147, 46 / 55]] \<and>
   emitted (demo_tables\<lparr>rand_double2 := other_generator\<rparr>) (Suc (Suc 0))
     (QMCSamplingContext_child (demo_tables\<lparr>rand_double2 := other_generator\<rparr>) 3 2 7 3 16
        (vfill 9) used_generators)
   = Inr [[11 / 25, 1 / 49, 7 / 11], [47 / 50, 52 / 147, 46 / 55]]"
proof -
  have u: "unat (3::size_t) = Suc (Suc (Suc 0))" by simp
  have "padded_count demo_tables 2 (unat (3::size_t)) = 0"
    unfolding u by (simp add: demo_tables_def halton_tables_def)
  then have covered: "\<forall>j<unat (3::size_t). 2 + of_nat j < FaurePermutationTableSize demo_tables"
    by (simp only: padded_count_0_iff)
  have fresh: "(0::size_t) < 3 \<or> vget (vfill 0) 0 = vget (vfill 9) 0" by simp
  from determinism_unpadded [OF covered fresh, of "Suc (Suc 0)" 0 7 16 fresh_generators
      other_generator 3 used_generators] emitted_demo
  show ?thesis by simp
qed

section \<open>The offset of a root context\<close>








end
